theory Spec2Isabelle
  imports Complex_Main "HOL-Library.AList" "HOL-Library.Multiset"
begin

section \<open>Python values used by generate\_markov\_text.py\<close>

text \<open>
  A Python \<open>str\<close> is a sequence of Unicode code points; it is modelled as the list of
  its code points (\<open>ord\<close> of each character). A \<open>dict\<close> keeps its keys in insertion
  order, and the order is observable here (it fixes the order of the lines of a model file
  and the order of edges of equal probability), so a dict is an association list that is
  changed with \<open>AList.update\<close>: a new key goes to the end, an existing key keeps its place.
\<close>

type_synonym pystr = "nat list"

text \<open>The exceptions the script can raise. \<open>Exception\<close> carries its argument tuple.\<close>

datatype error =
    Exception "pystr list"
  | IndexError
  | KeyError
  | ValueError
  | OverflowError
  | ZeroDivisionError
  | DanglingReference

definition lit :: "string \<Rightarrow> pystr" where
  "lit s = map of_char s"

text \<open>Indexing \<open>xs[i]\<close> and slicing \<open>xs[a:b]\<close> with Python's rules for negative and
  out-of-range positions.\<close>

definition py_index :: "'a list \<Rightarrow> int \<Rightarrow> error + 'a" where
  "py_index xs i =
     (let n = int (length xs); j = (if i < 0 then i + n else i)
      in if 0 \<le> j \<and> j < n then Inr (xs ! nat j) else Inl IndexError)"

definition clamp_index :: "int \<Rightarrow> int \<Rightarrow> int" where
  "clamp_index n i = (if i < 0 then max 0 (i + n) else min i n)"

definition py_slice :: "'a list \<Rightarrow> int \<Rightarrow> int \<Rightarrow> 'a list" where
  "py_slice xs a b =
     (let n = int (length xs); lo = clamp_index n a; hi = clamp_index n b
      in take (nat (hi - lo)) (drop (nat lo) xs))"

text \<open>\<open>str(n)\<close> for an integer: its decimal digits, with a minus sign when negative.\<close>

fun str_nat :: "nat \<Rightarrow> pystr" where
  "str_nat n = (if n < 10 then [48 + n] else str_nat (n div 10) @ [48 + n mod 10])"

declare str_nat.simps [simp del]

definition str_int :: "int \<Rightarrow> pystr" where
  "str_int i = (if i < 0 then 45 # str_nat (nat (- i)) else str_nat (nat i))"

section \<open>Counting n-grams: compute\_ngram\_counts\<close>

text \<open>The count table: n-gram \<open>\<mapsto>\<close> (following letter \<open>\<mapsto>\<close> count). A letter is a Python
  string too (of one character whenever this program made it).\<close>

type_synonym letter_counts = "(pystr \<times> int) list"
type_synonym ngram_counts = "(pystr \<times> letter_counts) list"

text \<open>Lines 62-66: the n-gram starting at position \<open>i\<close>.\<close>

definition ngram_at :: "pystr \<Rightarrow> int \<Rightarrow> int \<Rightarrow> pystr" where
  "ngram_at text k i =
     (let text_length = int (length text)
      in if i + k < text_length then py_slice text i (i + k)
         else py_slice text i text_length @ py_slice text 0 (k - (text_length - i)))"

text \<open>Lines 70-71: the letter following that n-gram.\<close>

definition next_letter_at :: "pystr \<Rightarrow> int \<Rightarrow> int \<Rightarrow> error + pystr" where
  "next_letter_at text k i =
     (let text_length = int (length text)
      in case (if i + k < text_length then py_index text (i + k)
               else py_index text (k - (text_length - i))) of
           Inl e \<Rightarrow> Inl e
         | Inr c \<Rightarrow> Inr [c])"

text \<open>Lines 75-83: one more occurrence of \<open>next_letter\<close> after \<open>ngram\<close>. The inner
  dict is created empty when the n-gram is new, and is then changed in place.\<close>

definition add_occurrence :: "ngram_counts \<Rightarrow> pystr \<Rightarrow> pystr \<Rightarrow> ngram_counts" where
  "add_occurrence ngrams ngram next_letter =
     (let next_ngram_letters = (case map_of ngrams ngram of None \<Rightarrow> [] | Some d \<Rightarrow> d)
      in AList.update ngram
           (case map_of next_ngram_letters next_letter of
              Some c \<Rightarrow> AList.update next_letter (c + 1) next_ngram_letters
            | None \<Rightarrow> AList.update next_letter 1 next_ngram_letters)
           ngrams)"

text \<open>Lines 59-83: the loop over the start positions.\<close>

fun count_loop :: "pystr \<Rightarrow> int \<Rightarrow> nat list \<Rightarrow> ngram_counts \<Rightarrow> error + ngram_counts" where
  "count_loop text k [] ngrams = Inr ngrams"
| "count_loop text k (i # rest) ngrams =
     (let ngram = ngram_at text k (int i)
      in case next_letter_at text k (int i) of
           Inl e \<Rightarrow> Inl e
         | Inr next_letter \<Rightarrow> count_loop text k rest (add_occurrence ngrams ngram next_letter))"

definition too_short_message :: "int \<Rightarrow> pystr" where
  "too_short_message k =
     lit ''Text is too short. Provide more than '' @ str_int k @ lit '' characters''"

definition compute_ngram_counts :: "pystr \<Rightarrow> int \<Rightarrow> error + ngram_counts" where
  "compute_ngram_counts text k =
     (if int (length text) < k then Inl (Exception [too_short_message k])
      else count_loop text k [0 ..< length text] [])"


section \<open>The chain: MarkovChainNode and build\_markov\_chain\<close>

text \<open>
  A node holds its n-gram and the list of (next node, probability) pairs. Nodes refer to
  each other (and to themselves), and a node receives its edges after other nodes already
  point to it, so the nodes live in a store: the dict \<open>chain_nodes\<close>, in which a node is
  found by its n-gram. A reference to a node is the n-gram it is stored under.

  Probabilities are Python floats. A float is modelled by the real number it denotes, and
  every operation that rounds is followed by \<open>rnd\<close>, the rounding to the nearest float,
  which is a parameter: \<open>float(n)\<close> is \<open>rnd n\<close>, \<open>a / b\<close> is \<open>rnd (a / b)\<close>,
  \<open>a - b\<close> is \<open>rnd (a - b)\<close>. The overflow of a float (a number above \<open>1.8e308\<close>) is
  not modelled.
\<close>

record MarkovChainNode =
  ngram :: pystr
  next_states :: "(pystr \<times> real) list"

type_synonym chain = "(pystr \<times> MarkovChainNode) list"

text \<open>Lines 27-29.\<close>

definition new_node :: "pystr \<Rightarrow> MarkovChainNode" where
  "new_node g = \<lparr>ngram = g, next_states = []\<rparr>"

text \<open>Lines 31-33: append, then sort by probability, largest first. Python's sort is
  stable, also with \<open>reverse = True\<close>; so is \<open>sort_key\<close>, here on the negated key.\<close>

definition add_next_state :: "MarkovChainNode \<Rightarrow> pystr \<Rightarrow> real \<Rightarrow> MarkovChainNode" where
  "add_next_state nd target probability =
     nd\<lparr>next_states := sort_key (\<lambda>pair. - snd pair) (next_states nd @ [(target, probability)])\<rparr>"

text \<open>Lines 40-44: the scan of the edges with the drawn number.\<close>

fun select_state :: "(real \<Rightarrow> real) \<Rightarrow> (pystr \<times> real) list \<Rightarrow> real \<Rightarrow> pystr option" where
  "select_state rnd [] probability = None"
| "select_state rnd (state # rest) probability =
     (if probability < snd state then Some (fst state)
      else select_state rnd rest (rnd (probability - snd state)))"

text \<open>Lines 35-48; \<open>probability\<close> is the value \<open>random()\<close> returned.\<close>

definition get_next_state :: "(real \<Rightarrow> real) \<Rightarrow> MarkovChainNode \<Rightarrow> real \<Rightarrow> error + pystr" where
  "get_next_state rnd nd probability =
     (case select_state rnd (next_states nd) probability of
        Some target \<Rightarrow> Inr target
      | None \<Rightarrow> Inl (Exception [lit ''No next state found for '' @ [39] @ lit ''{0}'', ngram nd]))"

text \<open>Lines 158-159: one node for each n-gram.\<close>

definition create_nodes :: "ngram_counts \<Rightarrow> chain" where
  "create_nodes ngrams = foldl (\<lambda>chain_nodes g. AList.update g (new_node g) chain_nodes) [] (map fst ngrams)"

text \<open>Lines 166-171: the edges of the node of \<open>g\<close>, one for each following letter. The
  lookup of the next node comes first and raises KeyError; the division raises
  ZeroDivisionError when the weight is \<open>0.0\<close>.\<close>

fun connect_letters ::
  "(real \<Rightarrow> real) \<Rightarrow> pystr \<Rightarrow> real \<Rightarrow> letter_counts \<Rightarrow> chain \<Rightarrow> error + chain" where
  "connect_letters rnd g weight [] chain_nodes = Inr chain_nodes"
| "connect_letters rnd g weight (item # rest) chain_nodes =
     (let next_state_ngram = drop 1 g @ fst item
      in case map_of chain_nodes next_state_ngram of
           None \<Rightarrow> Inl KeyError
         | Some next_state_node \<Rightarrow>
             if weight = 0 then Inl ZeroDivisionError
             else (case map_of chain_nodes g of
                     None \<Rightarrow> Inl KeyError
                   | Some nd \<Rightarrow>
                       connect_letters rnd g weight rest
                         (AList.update g
                            (add_next_state nd next_state_ngram
                               (rnd (rnd (real_of_int (snd item)) / weight)))
                            chain_nodes)))"

text \<open>Lines 161-171: the loop over the n-grams.\<close>

fun connect_nodes :: "(real \<Rightarrow> real) \<Rightarrow> ngram_counts \<Rightarrow> chain \<Rightarrow> error + chain" where
  "connect_nodes rnd [] chain_nodes = Inr chain_nodes"
| "connect_nodes rnd (entry # rest) chain_nodes =
     (let weight = rnd (real_of_int (sum_list (map snd (snd entry))))
      in case map_of chain_nodes (fst entry) of
           None \<Rightarrow> Inl KeyError
         | Some nd \<Rightarrow>
             (case connect_letters rnd (fst entry) weight (snd entry) chain_nodes of
                Inl e \<Rightarrow> Inl e
              | Inr chain_nodes' \<Rightarrow> connect_nodes rnd rest chain_nodes'))"

definition build_markov_chain :: "(real \<Rightarrow> real) \<Rightarrow> ngram_counts \<Rightarrow> error + chain" where
  "build_markov_chain rnd ngrams = connect_nodes rnd ngrams (create_nodes ngrams)"

section \<open>The walk: generate\_text\<close>

text \<open>
  The random source is an input: \<open>pick\<close> decides which key \<open>choice\<close> returns, and
  \<open>draws j\<close> is the number the \<open>j\<close>-th call of \<open>random()\<close> returns. The walk returns
  the text together with the number of draws it made.
\<close>

function walk ::
  "(real \<Rightarrow> real) \<Rightarrow> chain \<Rightarrow> int \<Rightarrow> (nat \<Rightarrow> real) \<Rightarrow> MarkovChainNode \<Rightarrow> pystr \<Rightarrow> int \<Rightarrow> nat
     \<Rightarrow> error + (pystr \<times> nat)" where
  "walk rnd chain target draws nd text text_length used =
     (if text_length < target then
        (case get_next_state rnd nd (draws used) of
           Inl e \<Rightarrow> Inl e
         | Inr key \<Rightarrow>
             (case map_of chain key of
                None \<Rightarrow> Inl DanglingReference
              | Some nd' \<Rightarrow>
                  (case py_index (ngram nd') (- 1) of
                     Inl e \<Rightarrow> Inl e
                   | Inr c \<Rightarrow> walk rnd chain target draws nd' (text @ [c]) (text_length + 1) (used + 1))))
      else Inr (text, used))"
  by pat_completeness auto
termination
  by (relation "measure (\<lambda>(rnd, chain, target, draws, nd, text, text_length, used).
                   nat (target - text_length))") auto

declare walk.simps [simp del]

definition generate_text ::
  "(real \<Rightarrow> real) \<Rightarrow> chain \<Rightarrow> int \<Rightarrow> nat \<Rightarrow> (nat \<Rightarrow> real) \<Rightarrow> error + (pystr \<times> nat)" where
  "generate_text rnd chain target pick draws =
     (let ngrams = map fst chain
      in if ngrams = [] then Inl IndexError
         else (case map_of chain (ngrams ! (pick mod length ngrams)) of
                 None \<Rightarrow> Inl KeyError
               | Some nd \<Rightarrow> walk rnd chain target draws nd (ngram nd) (int (length (ngram nd))) 0))"

section \<open>The model file\<close>

subsection \<open>Writing\<close>

fun join_space :: "pystr list \<Rightarrow> pystr" where
  "join_space [] = []"
| "join_space [t] = t"
| "join_space (t # ts) = t @ [32] @ join_space ts"

text \<open>Line 102; \<open>ord\<close> of a character is the code point itself.\<close>

definition string_to_decimal :: "pystr \<Rightarrow> pystr" where
  "string_to_decimal text = join_space (map (\<lambda>letter. str_int (int letter)) text)"

text \<open>Lines 117-122: the line of one n-gram.\<close>

definition write_ngram :: "pystr \<times> letter_counts \<Rightarrow> pystr" where
  "write_ngram entry =
     string_to_decimal (fst entry) @ [32] @ str_int (int (length (snd entry))) @ [32]
     @ concat (map (\<lambda>item. string_to_decimal (fst item) @ [32] @ str_int (snd item) @ [32])
                   (snd entry))
     @ [10]"

text \<open>Lines 109-122: what is written to the file.\<close>

definition write_ngram_counts_to_file :: "ngram_counts \<Rightarrow> int \<Rightarrow> pystr" where
  "write_ngram_counts_to_file ngrams ngram_length =
     str_int ngram_length @ [32] @ str_int (int (length ngrams)) @ [10]
     @ concat (map write_ngram ngrams)"

subsection \<open>Reading\<close>

text \<open>The characters \<open>str.split()\<close> splits at: those for which \<open>str.isspace()\<close> holds.\<close>

definition py_isspace :: "nat \<Rightarrow> bool" where
  "py_isspace c \<longleftrightarrow>
     (9 \<le> c \<and> c \<le> 13) \<or> (28 \<le> c \<and> c \<le> 32) \<or> c = 133 \<or> c = 160 \<or> c = 5760
     \<or> (8192 \<le> c \<and> c \<le> 8202) \<or> c = 8232 \<or> c = 8233 \<or> c = 8239 \<or> c = 8287 \<or> c = 12288"

text \<open>A file opened with \<open>open(path, "r")\<close> is read with universal newlines: \<open>\r\n\<close>
  and \<open>\r\<close> arrive as \<open>\n\<close>.\<close>

fun universal_newlines :: "pystr \<Rightarrow> pystr" where
  "universal_newlines [] = []"
| "universal_newlines [c] = (if c = 13 then [10] else [c])"
| "universal_newlines (c # d # cs) =
     (if c = 13 \<and> d = 10 then 10 # universal_newlines cs
      else if c = 13 then 10 # universal_newlines (d # cs)
      else c # universal_newlines (d # cs))"

text \<open>\<open>file.readline()\<close>: the line with its newline, and what is left of the file. At
  the end of the file the line is empty.\<close>

fun readline :: "pystr \<Rightarrow> pystr \<times> pystr" where
  "readline [] = ([], [])"
| "readline (c # cs) =
     (if c = 10 then ([c], cs) else (let (line, rest) = readline cs in (c # line, rest)))"

text \<open>\<open>s.split()\<close>: the maximal runs of characters that are not whitespace.
  \<open>split_from cur s\<close> splits \<open>s\<close> when \<open>cur\<close> is the run read so far.\<close>

fun split_from :: "pystr \<Rightarrow> pystr \<Rightarrow> pystr list" where
  "split_from cur [] = (if cur = [] then [] else [cur])"
| "split_from cur (c # cs) =
     (if py_isspace c then (if cur = [] then split_from [] cs else cur # split_from [] cs)
      else split_from (cur @ [c]) cs)"

definition py_split :: "pystr \<Rightarrow> pystr list" where
  "py_split s = split_from [] s"

text \<open>
  \<open>int(s)\<close> for a string without whitespace: an optional sign, then decimal digits, where
  single underscores may stand between digits. Which characters are decimal digits, and
  with which value, is the interpreter's Unicode table; it is the parameter \<open>dec\<close>.
  \<open>parse_digits dec need s acc\<close> reads the digits of \<open>s\<close> after the value \<open>acc\<close>;
  \<open>need\<close> says that a digit must come next.
\<close>

fun parse_digits :: "(nat \<Rightarrow> nat option) \<Rightarrow> bool \<Rightarrow> pystr \<Rightarrow> nat \<Rightarrow> nat option" where
  "parse_digits dec need [] acc = (if need then None else Some acc)"
| "parse_digits dec need (c # cs) acc =
     (if c = 95 then (if need then None else parse_digits dec True cs acc)
      else (case dec c of
              None \<Rightarrow> None
            | Some d \<Rightarrow> parse_digits dec False cs (10 * acc + d)))"

definition py_int :: "(nat \<Rightarrow> nat option) \<Rightarrow> pystr \<Rightarrow> error + int" where
  "py_int dec s =
     (case s of
        [] \<Rightarrow> Inl ValueError
      | c # cs \<Rightarrow>
          if c = 45 then (case parse_digits dec True cs 0 of
                            None \<Rightarrow> Inl ValueError | Some n \<Rightarrow> Inr (- int n))
          else if c = 43 then (case parse_digits dec True cs 0 of
                                 None \<Rightarrow> Inl ValueError | Some n \<Rightarrow> Inr (int n))
          else (case parse_digits dec True s 0 of
                  None \<Rightarrow> Inl ValueError | Some n \<Rightarrow> Inr (int n)))"

text \<open>\<open>chr(i)\<close>: OverflowError outside a C int, ValueError outside the code points.\<close>

definition py_chr :: "int \<Rightarrow> error + nat" where
  "py_chr i =
     (if i < - 2147483648 \<or> 2147483647 < i then Inl OverflowError
      else if i < 0 \<or> 1114111 < i then Inl ValueError
      else Inr (nat i))"

text \<open>Line 106: \<open>chr(int(number))\<close> for each number, stopping at the first exception.\<close>

fun chars_from_decimal :: "(nat \<Rightarrow> nat option) \<Rightarrow> pystr list \<Rightarrow> error + pystr" where
  "chars_from_decimal dec [] = Inr []"
| "chars_from_decimal dec (number # numbers) =
     (case py_int dec number of
        Inl e \<Rightarrow> Inl e
      | Inr i \<Rightarrow>
          (case py_chr i of
             Inl e \<Rightarrow> Inl e
           | Inr c \<Rightarrow>
               (case chars_from_decimal dec numbers of
                  Inl e \<Rightarrow> Inl e
                | Inr cs \<Rightarrow> Inr (c # cs))))"

definition string_from_decimal :: "(nat \<Rightarrow> nat option) \<Rightarrow> pystr \<Rightarrow> error + pystr" where
  "string_from_decimal dec decimal = chars_from_decimal dec (py_split decimal)"

text \<open>Lines 143-146: the letter-count pairs of one line, for the values \<open>js\<close> of \<open>j\<close>.\<close>

fun read_letters ::
  "(nat \<Rightarrow> nat option) \<Rightarrow> pystr list \<Rightarrow> int \<Rightarrow> nat list \<Rightarrow> letter_counts \<Rightarrow> error + letter_counts" where
  "read_letters dec ngram_info ngram_length [] next_letters = Inr next_letters"
| "read_letters dec ngram_info ngram_length (j # js) next_letters =
     (case py_index ngram_info (1 + ngram_length + (int j * 2)) of
        Inl e \<Rightarrow> Inl e
      | Inr letter_field \<Rightarrow>
          (case string_from_decimal dec letter_field of
             Inl e \<Rightarrow> Inl e
           | Inr letter \<Rightarrow>
               (case py_index ngram_info (1 + ngram_length + (int j * 2 + 1)) of
                  Inl e \<Rightarrow> Inl e
                | Inr count_field \<Rightarrow>
                    (case py_int dec count_field of
                       Inl e \<Rightarrow> Inl e
                     | Inr cnt \<Rightarrow>
                         read_letters dec ngram_info ngram_length js
                           (AList.update letter cnt next_letters)))))"

text \<open>Lines 136-148: one line of the file.\<close>

definition read_ngram ::
  "(nat \<Rightarrow> nat option) \<Rightarrow> int \<Rightarrow> pystr \<Rightarrow> error + (pystr \<times> letter_counts)" where
  "read_ngram dec ngram_length line =
     (let ngram_info = py_split line
      in case string_from_decimal dec (join_space (py_slice ngram_info 0 ngram_length)) of
           Inl e \<Rightarrow> Inl e
         | Inr ngram_value \<Rightarrow>
             (case py_index ngram_info ngram_length of
                Inl e \<Rightarrow> Inl e
              | Inr count_field \<Rightarrow>
                  (case py_int dec count_field of
                     Inl e \<Rightarrow> Inl e
                   | Inr next_letter_count \<Rightarrow>
                       (case read_letters dec ngram_info ngram_length
                               [0 ..< nat next_letter_count] [] of
                          Inl e \<Rightarrow> Inl e
                        | Inr next_letters \<Rightarrow> Inr (ngram_value, next_letters)))))"

text \<open>Lines 133-148: \<open>remaining\<close> lines are still to be read from \<open>file\<close>.\<close>

fun read_ngrams ::
  "(nat \<Rightarrow> nat option) \<Rightarrow> int \<Rightarrow> nat \<Rightarrow> pystr \<Rightarrow> ngram_counts \<Rightarrow> error + ngram_counts" where
  "read_ngrams dec ngram_length 0 file ngrams = Inr ngrams"
| "read_ngrams dec ngram_length (Suc remaining) file ngrams =
     (case read_ngram dec ngram_length (fst (readline file)) of
        Inl e \<Rightarrow> Inl e
      | Inr entry \<Rightarrow>
          read_ngrams dec ngram_length remaining (snd (readline file))
            (AList.update (fst entry) (snd entry) ngrams))"

text \<open>Line 131: every field of the first line as an integer.\<close>

fun ints_of :: "(nat \<Rightarrow> nat option) \<Rightarrow> pystr list \<Rightarrow> error + int list" where
  "ints_of dec [] = Inr []"
| "ints_of dec (number # numbers) =
     (case py_int dec number of
        Inl e \<Rightarrow> Inl e
      | Inr i \<Rightarrow> (case ints_of dec numbers of Inl e \<Rightarrow> Inl e | Inr is \<Rightarrow> Inr (i # is)))"

text \<open>Lines 125-150. \<open>content\<close> is the text of the file; unpacking into two names raises
  ValueError unless the first line has exactly two fields.\<close>

definition read_ngram_counts_from_file ::
  "(nat \<Rightarrow> nat option) \<Rightarrow> pystr \<Rightarrow> error + (ngram_counts \<times> int)" where
  "read_ngram_counts_from_file dec content =
     (let file = universal_newlines content
      in case ints_of dec (py_split (fst (readline file))) of
           Inl e \<Rightarrow> Inl e
         | Inr [ngram_length, ngram_count] \<Rightarrow>
             (case read_ngrams dec ngram_length (nat ngram_count) (snd (readline file)) [] of
                Inl e \<Rightarrow> Inl e
              | Inr ngrams \<Rightarrow> Inr (ngrams, ngram_length))
         | Inr _ \<Rightarrow> Inl ValueError)"


section \<open>Notions used to state the properties\<close>

text \<open>The circular view of the text, as the specification words it: the \<open>k\<close>
  characters at the positions \<open>i, i + 1, \<dots>, i + k - 1\<close> taken modulo the length of the
  text, and the character at position \<open>i + k\<close> modulo the length.\<close>

definition circular_ngram :: "pystr \<Rightarrow> nat \<Rightarrow> nat \<Rightarrow> pystr" where
  "circular_ngram text k i = map (\<lambda>j. text ! ((i + j) mod length text)) [0 ..< k]"

definition circular_next :: "pystr \<Rightarrow> nat \<Rightarrow> nat \<Rightarrow> nat" where
  "circular_next text k i = text ! ((i + k) mod length text)"

text \<open>One observation (n-gram, following letter) for each start position.\<close>

definition observations :: "pystr \<Rightarrow> nat \<Rightarrow> (pystr \<times> pystr) list" where
  "observations text k =
     map (\<lambda>i. (circular_ngram text k i, [circular_next text k i])) [0 ..< length text]"

text \<open>The count a table holds for a letter after an n-gram (0 when absent), and the sum
  of all its counts.\<close>

definition count_of :: "ngram_counts \<Rightarrow> pystr \<Rightarrow> pystr \<Rightarrow> int" where
  "count_of ngrams g letter =
     (case map_of ngrams g of
        None \<Rightarrow> 0
      | Some d \<Rightarrow> (case map_of d letter of None \<Rightarrow> 0 | Some c \<Rightarrow> c))"

definition total_count :: "ngram_counts \<Rightarrow> int" where
  "total_count ngrams = sum_list (map (\<lambda>entry. sum_list (map snd (snd entry))) ngrams)"

text \<open>The table after a list of observations, the pairs (n-gram, letter) a table holds,
  and the shape of a table that is a dict of dicts: no key twice.\<close>

definition record_all :: "ngram_counts \<Rightarrow> (pystr \<times> pystr) list \<Rightarrow> ngram_counts" where
  "record_all ngrams obs = foldl (\<lambda>t p. add_occurrence t (fst p) (snd p)) ngrams obs"

definition table_pairs :: "ngram_counts \<Rightarrow> (pystr \<times> pystr) set" where
  "table_pairs t = {(g, c). \<exists>d. map_of t g = Some d \<and> map_of d c \<noteq> None}"

definition wf_counts :: "ngram_counts \<Rightarrow> bool" where
  "wf_counts t \<longleftrightarrow> distinct (map fst t) \<and> (\<forall>e \<in> set t. distinct (map fst (snd e)))"

text \<open>The edges of the node of \<open>g\<close> in the order in which the loop of lines 166-171
  adds them: one for each letter, to the n-gram of the sliding window, with the float
  \<open>count / weight\<close>.\<close>

definition edges_of :: "(real \<Rightarrow> real) \<Rightarrow> pystr \<Rightarrow> letter_counts \<Rightarrow> (pystr \<times> real) list" where
  "edges_of rnd g letters =
     map (\<lambda>item. (drop 1 g @ fst item,
                   rnd (rnd (real_of_int (snd item))
                        / rnd (real_of_int (sum_list (map snd letters))))))
         letters"

text \<open>The node of \<open>g\<close> once all its edges are added and sorted.\<close>

definition built_node :: "(real \<Rightarrow> real) \<Rightarrow> pystr \<Rightarrow> letter_counts \<Rightarrow> MarkovChainNode" where
  "built_node rnd g letters =
     \<lparr>ngram = g, next_states = sort_key (\<lambda>pair. - snd pair) (edges_of rnd g letters)\<rparr>"

text \<open>Every n-gram of the table has a following letter, and every count is at least 1.\<close>

definition positive_counts :: "ngram_counts \<Rightarrow> bool" where
  "positive_counts t \<longleftrightarrow> (\<forall>e \<in> set t. snd e \<noteq> [] \<and> (\<forall>item \<in> set (snd e). 1 \<le> snd item))"

text \<open>Every n-gram the sliding window leads to is a key of the table.\<close>

definition closed_table :: "ngram_counts \<Rightarrow> bool" where
  "closed_table t \<longleftrightarrow>
     (\<forall>e \<in> set t. \<forall>item \<in> set (snd e). drop 1 (fst e) @ fst item \<in> fst ` set t)"

text \<open>What the properties need of the digit table of \<open>int\<close>: the ten ASCII digits have their values.\<close>

definition ascii_digits :: "(nat \<Rightarrow> nat option) \<Rightarrow> bool" where
  "ascii_digits dec \<longleftrightarrow> (\<forall>d < 10. dec (48 + d) = Some d)"

text \<open>A field of a line: not empty, and without whitespace.\<close>

definition token :: "pystr \<Rightarrow> bool" where
  "token t \<longleftrightarrow> t \<noteq> [] \<and> (\<forall>c \<in> set t. \<not> py_isspace c)"

text \<open>The characters of \<open>str(n)\<close>.\<close>

definition digit_or_minus :: "nat \<Rightarrow> bool" where
  "digit_or_minus c \<longleftrightarrow> c = 45 \<or> (48 \<le> c \<and> c \<le> 57)"

text \<open>A count table of the data model for the n-gram length \<open>k\<close>: no n-gram twice, every
  n-gram of \<open>k\<close> characters, no letter twice after an n-gram, every letter a single
  character, every character a code point.\<close>

definition model_table :: "int \<Rightarrow> ngram_counts \<Rightarrow> bool" where
  "model_table k ngrams \<longleftrightarrow>
     distinct (map fst ngrams)
     \<and> (\<forall>e \<in> set ngrams.
           int (length (fst e)) = k \<and> (\<forall>c \<in> set (fst e). c \<le> 1114111)
           \<and> distinct (map fst (snd e))
           \<and> (\<forall>item \<in> set (snd e).
                 length (fst item) = 1 \<and> (\<forall>c \<in> set (fst item). c \<le> 1114111)))"

text \<open>The two fields of a letter-count pair, and all the fields of the line of an n-gram.\<close>

definition pair_tokens :: "pystr \<times> int \<Rightarrow> pystr list" where
  "pair_tokens item = [string_to_decimal (fst item), str_int (snd item)]"

definition entry_tokens :: "pystr \<times> letter_counts \<Rightarrow> pystr list" where
  "entry_tokens entry =
     map (\<lambda>letter. str_int (int letter)) (fst entry)
     @ str_int (int (length (snd entry))) # concat (map pair_tokens (snd entry))"

text \<open>The characters of a written line before its newline.\<close>

definition plain :: "nat \<Rightarrow> bool" where
  "plain c \<longleftrightarrow> digit_or_minus c \<or> c = 32"

text \<open>The digit table with the ASCII digits only.\<close>

definition ascii_dec :: "nat \<Rightarrow> nat option" where
  "ascii_dec c = (if 48 \<le> c \<and> c \<le> 57 then Some (c - 48) else None)"

text \<open>The lines of a text, each with its newline: what successive calls of \<open>readline\<close> return
  until the end of the file. \<open>lines_from cur s\<close> is for the rest \<open>s\<close> of the text when
  \<open>cur\<close> is the part of the line read so far.\<close>

fun lines_from :: "pystr \<Rightarrow> pystr \<Rightarrow> pystr list" where
  "lines_from cur [] = (if cur = [] then [] else [cur])"
| "lines_from cur (c # cs) =
     (if c = 10 then (cur @ [c]) # lines_from [] cs else lines_from (cur @ [c]) cs)"

definition file_lines :: "pystr \<Rightarrow> pystr list" where
  "file_lines s = lines_from [] s"

text \<open>The proviso of the walk: each of the first \<open>n\<close> weighted scans of the run that
  starts at the node \<open>nd\<close>, with the draws from number \<open>used\<close> on, finds an edge, and
  the edge leads to a node of the chain.\<close>

fun scans_resolve ::
  "(real \<Rightarrow> real) \<Rightarrow> chain \<Rightarrow> (nat \<Rightarrow> real) \<Rightarrow> MarkovChainNode \<Rightarrow> nat \<Rightarrow> nat \<Rightarrow> bool" where
  "scans_resolve rnd chain draws nd used 0 = True"
| "scans_resolve rnd chain draws nd used (Suc n) =
     (case select_state rnd (next_states nd) (draws used) of
        None \<Rightarrow> False
      | Some key \<Rightarrow>
          (case map_of chain key of
             None \<Rightarrow> False
           | Some nd' \<Rightarrow> scans_resolve rnd chain draws nd' (Suc used) n))"

text \<open>The fields of a line that lines 137-146 can read, for an n-gram length \<open>k \<ge> 0\<close>:
  the \<open>k\<close> fields of the n-gram and the field of the number \<open>M\<close> of pairs, then the
  \<open>2 * M\<close> fields of the pairs when that field is an integer. A line of at most \<open>k\<close>
  fields is read whole.\<close>

definition fields_read :: "(nat \<Rightarrow> nat option) \<Rightarrow> int \<Rightarrow> pystr list \<Rightarrow> pystr list" where
  "fields_read dec k ngram_info =
     (if nat k < length ngram_info
      then (case py_int dec (ngram_info ! nat k) of
              Inl e \<Rightarrow> take (nat k + 1) ngram_info
            | Inr M \<Rightarrow> take (nat k + 1 + 2 * nat M) ngram_info)
      else ngram_info)"

section \<open>Properties of compute\_ngram\_counts\<close>

lemma mod_wrap: "n \<le> a \<Longrightarrow> a < 2 * n \<Longrightarrow> a mod n = a - (n::nat)"
  by (simp add: le_mod_geq)

lemma py_slice_nat:
  "a \<le> b \<Longrightarrow> b \<le> length xs \<Longrightarrow> py_slice xs (int a) (int b) = take (b - a) (drop a xs)"
  by (simp add: py_slice_def clamp_index_def Let_def min_def nat_diff_distrib')

lemma ngram_at_circular:
  assumes "0 \<le> k" "k \<le> int (length text)" "i < length text"
  shows "ngram_at text k (int i) = circular_ngram text (nat k) i"
proof -
  define n where "n = length text"
  define m where "m = nat k"
  have k: "k = int m" and mn: "m \<le> n" and i: "i < n"
    using assms by (simp_all add: n_def m_def)
  show ?thesis
  proof (cases "i + m < n")
    case True
    have "ngram_at text k (int i) = take m (drop i text)"
      using True py_slice_nat [of i "i + m" "text"] by (simp add: ngram_at_def k n_def)
    also have "\<dots> = circular_ngram text m i"
      using True by (intro nth_equalityI) (simp_all add: circular_ngram_def n_def)
    finally show ?thesis by (simp add: m_def)
  next
    case False
    have e: "k - (int n - int i) = int (i + m - n)" using False k by simp
    have "ngram_at text k (int i) = py_slice text (int i) (int n) @ py_slice text (int 0) (int (i + m - n))"
      using False e by (simp add: ngram_at_def k n_def Let_def algebra_simps)
    also have "\<dots> = drop i text @ take (i + m - n) text"
      using i mn py_slice_nat [of i n "text"] py_slice_nat [of 0 "i + m - n" "text"]
      by (simp add: n_def)
    also have "\<dots> = circular_ngram text m i"
    proof (intro nth_equalityI)
      show "length (drop i text @ take (i + m - n) text) = length (circular_ngram text m i)"
        using False i mn by (simp add: circular_ngram_def n_def)
    next
      fix j assume "j < length (drop i text @ take (i + m - n) text)"
      then have j: "j < m" using False i mn by (simp add: n_def)
      show "(drop i text @ take (i + m - n) text) ! j = circular_ngram text m i ! j"
      proof (cases "j < n - i")
        case True
        then show ?thesis using j i by (simp add: nth_append circular_ngram_def n_def)
      next
        case f: False
        have "(i + j) mod n = i + j - n"
          using f i j mn by (intro mod_wrap) simp_all
        moreover have "j - (n - i) = i + j - n" using f i by simp
        ultimately show ?thesis using f j i mn
          by (simp add: nth_append circular_ngram_def n_def)
      qed
    qed
    finally show ?thesis by (simp add: m_def)
  qed
qed

lemma next_letter_at_circular:
  assumes "0 \<le> k" "k \<le> int (length text)" "i < length text"
  shows "next_letter_at text k (int i) = Inr [circular_next text (nat k) i]"
proof -
  define n where "n = length text"
  define m where "m = nat k"
  have k: "k = int m" and mn: "m \<le> n" and i: "i < n"
    using assms by (simp_all add: n_def m_def)
  show ?thesis
  proof (cases "i + m < n")
    case True
    then show ?thesis
      by (simp add: next_letter_at_def py_index_def circular_next_def k n_def nat_add_distrib flip: m_def)
  next
    case False
    have e: "k - (int n - int i) = int (i + m - n)" using False k by simp
    have md: "(i + m) mod n = i + m - n" using False i mn by (intro mod_wrap) simp_all
    have lt: "i + m - n < n" using False i mn by simp
    have "next_letter_at text k (int i) =
            (case py_index text (int (i + m - n)) of Inl e \<Rightarrow> Inl e | Inr c \<Rightarrow> Inr [c])"
      using False e by (simp add: next_letter_at_def k algebra_simps flip: n_def)
    also have "py_index text (int (i + m - n)) = Inr (text ! (i + m - n))"
      using lt by (simp add: py_index_def flip: n_def)
    finally show ?thesis using md
      by (simp add: circular_next_def flip: m_def n_def)
  qed
qed

lemma count_loop_record_all:
  assumes "0 \<le> k" "k \<le> int (length text)" "\<forall>i \<in> set is. i < length text"
  shows "count_loop text k is t =
           Inr (record_all t (map (\<lambda>i. (circular_ngram text (nat k) i, [circular_next text (nat k) i])) is))"
  using assms(3)
proof (induction "is" arbitrary: t)
  case Nil
  show ?case by (simp add: record_all_def)
next
  case (Cons i rest)
  have i: "i < length text" using Cons.prems by simp
  show ?case
    using Cons.IH [of "add_occurrence t (circular_ngram text (nat k) i) [circular_next text (nat k) i]"]
      Cons.prems ngram_at_circular [OF assms(1,2) i] next_letter_at_circular [OF assms(1,2) i]
    by (simp add: record_all_def)
qed

lemma compute_ngram_counts_record_all:
  assumes "0 \<le> k" "k \<le> int (length text)"
  shows "compute_ngram_counts text k = Inr (record_all [] (observations text (nat k)))"
  using assms count_loop_record_all [OF assms, of "[0 ..< length text]" "[]"]
  by (simp add: compute_ngram_counts_def observations_def)

lemma sum_list_update:
  fixes f :: "'v \<Rightarrow> int"
  shows "sum_list (map (\<lambda>p. f (snd p)) (AList.update k v al)) =
           sum_list (map (\<lambda>p. f (snd p)) al)
             - (case map_of al k of None \<Rightarrow> 0 | Some w \<Rightarrow> f w) + f v"
  by (induction al) auto

lemma total_count_add_occurrence:
  "total_count (add_occurrence t g c) = total_count t + 1"
proof -
  define d where "d = (case map_of t g of None \<Rightarrow> [] | Some d \<Rightarrow> d)"
  define d' where "d' = (case map_of d c of Some m \<Rightarrow> AList.update c (m + 1) d
                          | None \<Rightarrow> AList.update c 1 d)"
  have a: "add_occurrence t g c = AList.update g d' t"
    unfolding add_occurrence_def Let_def d'_def d_def by (rule refl)
  have s: "sum_list (map snd d') = sum_list (map snd d) + 1"
    using sum_list_update [of "\<lambda>x. x" c _ d]
    by (simp add: d'_def split: option.splits)
  have o: "(case map_of t g of None \<Rightarrow> 0 | Some w \<Rightarrow> sum_list (map snd w)) = sum_list (map snd d)"
    by (simp add: d_def split: option.splits)
  show ?thesis
    unfolding a total_count_def
    using sum_list_update [of "\<lambda>w. sum_list (map snd w)" g d' t] s o by simp
qed

lemma total_count_record_all:
  "total_count (record_all t obs) = total_count t + int (length obs)"
  by (induction obs arbitrary: t) (simp_all add: record_all_def total_count_add_occurrence)

lemma count_of_add_occurrence:
  "count_of (add_occurrence t g c) g' c' =
     count_of t g' c' + (if g' = g \<and> c' = c then 1 else 0)"
  by (auto simp: add_occurrence_def count_of_def update_conv' Let_def split: option.splits)

lemma count_of_record_all:
  "count_of (record_all t obs) g c = count_of t g c + int (length (filter (\<lambda>p. p = (g, c)) obs))"
  by (induction obs arbitrary: t)
     (auto simp: record_all_def count_of_add_occurrence prod_eq_iff)

lemma keys_add_occurrence:
  "fst ` set (add_occurrence t g c) = insert g (fst ` set t)"
  by (simp add: add_occurrence_def dom_update Let_def)

lemma keys_record_all:
  "fst ` set (record_all t obs) = fst ` set obs \<union> fst ` set t"
  by (induction obs arbitrary: t) (auto simp: record_all_def keys_add_occurrence)

lemma table_pairs_add_occurrence:
  "table_pairs (add_occurrence t g c) = insert (g, c) (table_pairs t)"
  by (auto simp: table_pairs_def add_occurrence_def update_conv' Let_def split: option.splits if_splits)

lemma table_pairs_record_all:
  "table_pairs (record_all t obs) = set obs \<union> table_pairs t"
  by (induction obs arbitrary: t) (auto simp: record_all_def table_pairs_add_occurrence)

lemma wf_counts_add_occurrence:
  assumes "wf_counts t"
  shows "wf_counts (add_occurrence t g c)"
proof -
  define d where "d = (case map_of t g of None \<Rightarrow> [] | Some d \<Rightarrow> d)"
  define d' where "d' = (case map_of d c of Some m \<Rightarrow> AList.update c (m + 1) d
                          | None \<Rightarrow> AList.update c 1 d)"
  have a: "add_occurrence t g c = AList.update g d' t"
    unfolding add_occurrence_def Let_def d'_def d_def by (rule refl)
  have "distinct (map fst d)"
    using assms by (auto simp: d_def wf_counts_def split: option.splits dest: map_of_SomeD)
  then have dd: "distinct (map fst d')"
    by (simp add: d'_def distinct_update split: option.splits)
  have "set (AList.update g d' t) \<subseteq> insert (g, d') (set t)"
    by (induction t) auto
  then show ?thesis
    unfolding a using assms dd by (auto simp: wf_counts_def distinct_update)
qed

lemma wf_counts_record_all: "wf_counts t \<Longrightarrow> wf_counts (record_all t obs)"
  by (induction obs arbitrary: t) (simp_all add: record_all_def wf_counts_add_occurrence)

lemma circular_shift:
  assumes "1 \<le> k" "i < length text"
  shows "drop 1 (circular_ngram text k i) @ [circular_next text k i] =
           circular_ngram text k ((i + 1) mod length text)"
proof (intro nth_equalityI)
  show "length (drop 1 (circular_ngram text k i) @ [circular_next text k i]) =
          length (circular_ngram text k ((i + 1) mod length text))"
    using assms by (simp add: circular_ngram_def)
next
  fix j assume "j < length (drop 1 (circular_ngram text k i) @ [circular_next text k i])"
  then have j: "j < k" using assms by (simp add: circular_ngram_def)
  have "((i + 1) mod length text + j) mod length text = (i + 1 + j) mod length text"
    by (rule mod_add_left_eq)
  then have m: "((i + 1) mod length text + j) mod length text = (i + (j + 1)) mod length text"
    by (simp add: add.assoc add.commute)
  show "(drop 1 (circular_ngram text k i) @ [circular_next text k i]) ! j =
          circular_ngram text k ((i + 1) mod length text) ! j"
  proof (cases "j < k - 1")
    case True
    then have "Suc j < k" by simp
    then show ?thesis using True j m by (simp add: nth_append circular_ngram_def)
  next
    case False
    then have "j = k - 1" using j by simp
    then show ?thesis using j m assms
      by (simp add: nth_append circular_ngram_def circular_next_def)
  qed
qed


text \<open>
  Claim C8. For a positive \<open>k\<close>, \<open>compute_ngram_counts\<close> raises its exception exactly
  when the text has fewer than \<open>k\<close> characters, the message of the exception carries the
  number \<open>k\<close>, and with \<open>k\<close> or more characters (so also with exactly \<open>k\<close>) a table is
  returned: \<open>k\<close> is the least length that is accepted.
\<close>

theorem too_short_exactly_when_shorter_than_k:
  assumes "0 < k"
  shows "(if int (length text) < k
          then compute_ngram_counts text k =
                 Inl (Exception [lit ''Text is too short. Provide more than '' @ str_int k
                                 @ lit '' characters''])
          else \<exists>ngrams. compute_ngram_counts text k = Inr ngrams)"
proof (cases "int (length text) < k")
  case True
  then show ?thesis by (simp add: compute_ngram_counts_def too_short_message_def)
next
  case False
  then have "k \<le> int (length text)" by simp
  from compute_ngram_counts_record_all [OF _ this] assms False show ?thesis by simp
qed

theorem too_short_exactly_when_shorter_than_k_witness:
  "compute_ngram_counts [97, 98] 5 =
     Inl (Exception [lit ''Text is too short. Provide more than '' @ str_int 5 @ lit '' characters''])
   \<and> (\<exists>ngrams. compute_ngram_counts [97, 98] 2 = Inr ngrams)"
  using too_short_exactly_when_shorter_than_k [of 5 "[97, 98]"]
    too_short_exactly_when_shorter_than_k [of 2 "[97, 98]"]
  by simp

text \<open>
  Claim C2. For a positive \<open>k\<close> and a text of at least \<open>k\<close> characters, the counts of
  the returned table, summed over all n-grams and all their following letters, give the
  length of the text.
\<close>

theorem total_count_is_text_length:
  assumes "0 < k" and "k \<le> int (length text)"
  shows "\<exists>ngrams. compute_ngram_counts text k = Inr ngrams
           \<and> total_count ngrams = int (length text)"
proof -
  have "0 \<le> k" using assms(1) by simp
  have "total_count (record_all [] (observations text (nat k))) = int (length text)"
    unfolding total_count_record_all by (simp add: total_count_def observations_def)
  with compute_ngram_counts_record_all [OF \<open>0 \<le> k\<close> assms(2)]
  show ?thesis by simp
qed

theorem total_count_is_text_length_witness:
  "\<exists>ngrams. compute_ngram_counts [97, 98, 97] 2 = Inr ngrams \<and> total_count ngrams = 3"
  using total_count_is_text_length [of 2 "[97, 98, 97]"] by simp

text \<open>
  Claim C5. For a positive \<open>k\<close> and a text of at least \<open>k\<close> characters, the count the
  returned table holds for a letter \<open>c\<close> after an n-gram \<open>g\<close> is the number of start
  positions \<open>i\<close> whose circular window is \<open>g\<close> and whose circular successor is \<open>c\<close>:
  every start position is recorded once, with the window and the successor taken modulo
  the length of the text (also when \<open>k\<close> is the length of the text).
\<close>

theorem one_observation_per_position:
  assumes "0 < k" and "k \<le> int (length text)"
  shows "\<exists>ngrams. compute_ngram_counts text k = Inr ngrams
           \<and> (\<forall>g c. count_of ngrams g c =
                 int (length (filter (\<lambda>i. circular_ngram text (nat k) i = g
                                          \<and> [circular_next text (nat k) i] = c)
                                [0 ..< length text])))"
proof -
  have "0 \<le> k" using assms(1) by simp
  have "count_of (record_all [] (observations text (nat k))) g c =
          int (length (filter (\<lambda>i. circular_ngram text (nat k) i = g
                                   \<and> [circular_next text (nat k) i] = c)
                         [0 ..< length text]))" for g c
    unfolding count_of_record_all
    by (simp add: count_of_def observations_def filter_map comp_def)
  with compute_ngram_counts_record_all [OF \<open>0 \<le> k\<close> assms(2)]
  show ?thesis by simp
qed

theorem one_observation_per_position_witness:
  "\<exists>ngrams. compute_ngram_counts [97, 98] 2 = Inr ngrams
     \<and> (\<forall>g c. count_of ngrams g c =
           int (length (filter (\<lambda>i. circular_ngram [97, 98] (nat 2) i = g
                                    \<and> [circular_next [97, 98] (nat 2) i] = c)
                          [0 ..< length [97, 98 :: nat]])))"
  using one_observation_per_position [of 2 "[97, 98]"] by simp

section \<open>Properties of build\_markov\_chain\<close>

lemma sort_key_stable_sym:
  "filter (\<lambda>x. f k = f x) (sort_key f xs) = filter (\<lambda>x. f k = f x) xs"
  using sort_key_stable [of f "f k" xs] by (simp add: eq_commute [of "f k"])

lemma sort_key_sort_key_append:
  "sort_key f (sort_key f xs @ ys) = sort_key f (xs @ ys)"
proof (rule properties_for_sort_key [symmetric])
  show "mset (sort_key f (sort_key f xs @ ys)) = mset (xs @ ys)" by simp
next
  fix k
  show "filter (\<lambda>x. f k = f x) (sort_key f (sort_key f xs @ ys)) = filter (\<lambda>x. f k = f x) (xs @ ys)"
    by (simp add: sort_key_stable_sym)
next
  show "sorted (map f (sort_key f (sort_key f xs @ ys)))" by simp
qed

lemma update_existing_keys:
  "k \<in> fst ` set al \<Longrightarrow> map fst (AList.update k v al) = map fst al"
  by (simp add: update_keys)

lemma update_new_key:
  "k \<notin> fst ` set al \<Longrightarrow> AList.update k v al = al @ [(k, v)]"
  by (induction al) auto

lemma connect_letters_shape:
  assumes "connect_letters rnd g weight letters store = Inr store'"
    and "map_of store g = Some nd"
    and "sorted (map (\<lambda>pair. - snd pair) (next_states nd))"
  shows "map fst store' = map fst store
         \<and> map_of store' =
             (map_of store)(g \<mapsto> nd\<lparr>next_states :=
                 sort_key (\<lambda>pair. - snd pair)
                   (next_states nd
                    @ map (\<lambda>item. (drop 1 g @ fst item, rnd (rnd (real_of_int (snd item)) / weight)))
                          letters)\<rparr>)"
  using assms
proof (induction letters arbitrary: store nd)
  case Nil
  then have "store' = store" by simp
  moreover have "nd\<lparr>next_states := sort_key (\<lambda>pair. - snd pair) (next_states nd)\<rparr> = nd"
    using Nil.prems(3) by (simp add: sort_key_id_if_sorted)
  ultimately show ?case using Nil.prems(2) by (simp add: map_upd_triv)
next
  case (Cons item rest)
  define tgt where "tgt = drop 1 g @ fst item"
  define p where "p = rnd (rnd (real_of_int (snd item)) / weight)"
  define nd1 where "nd1 = add_next_state nd tgt p"
  define store1 where "store1 = AList.update g nd1 store"
  have run: "connect_letters rnd g weight rest store1 = Inr store'"
    using Cons.prems(1,2)
    by (simp add: Let_def tgt_def p_def nd1_def store1_def split: option.splits if_splits)
  have g_in: "g \<in> fst ` set store"
    using Cons.prems(2) by (metis domI dom_map_of_conv_image_fst)
  have k1: "map fst store1 = map fst store"
    using g_in by (simp add: store1_def update_existing_keys)
  have m1: "map_of store1 = (map_of store)(g \<mapsto> nd1)"
    by (simp add: store1_def update_conv')
  have s1: "sorted (map (\<lambda>pair. - snd pair) (next_states nd1))"
    by (simp add: nd1_def add_next_state_def)
  have m1g: "map_of store1 g = Some nd1" using m1 by simp
  note ih = Cons.IH [OF run m1g s1]
  have "next_states nd1 = sort_key (\<lambda>pair. - snd pair) (next_states nd @ [(tgt, p)])"
    by (simp add: nd1_def add_next_state_def)
  then have "nd1\<lparr>next_states :=
                 sort_key (\<lambda>pair. - snd pair)
                   (next_states nd1
                    @ map (\<lambda>item. (drop 1 g @ fst item, rnd (rnd (real_of_int (snd item)) / weight)))
                          rest)\<rparr>
           = nd\<lparr>next_states :=
                 sort_key (\<lambda>pair. - snd pair)
                   (next_states nd
                    @ map (\<lambda>item. (drop 1 g @ fst item, rnd (rnd (real_of_int (snd item)) / weight)))
                          (item # rest))\<rparr>"
    by (simp add: sort_key_sort_key_append nd1_def add_next_state_def tgt_def p_def)
  then have "map_of store' =
               (map_of store)(g \<mapsto> nd\<lparr>next_states :=
                 sort_key (\<lambda>pair. - snd pair)
                   (next_states nd
                    @ map (\<lambda>item. (drop 1 g @ fst item, rnd (rnd (real_of_int (snd item)) / weight)))
                          (item # rest))\<rparr>)"
    using ih unfolding m1 by (simp only: fun_upd_upd)
  moreover have "map fst store' = map fst store" using ih k1 by simp
  ultimately show ?case by blast
qed

lemma connect_nodes_shape:
  assumes "connect_nodes rnd es store = Inr store'"
    and "distinct (map fst es)"
    and "\<forall>e \<in> set es. map_of store (fst e) = Some (new_node (fst e))"
  shows "map fst store' = map fst store
         \<and> (\<forall>g. map_of store' g =
               (case map_of es g of
                  Some letters \<Rightarrow> Some (built_node rnd g letters)
                | None \<Rightarrow> map_of store g))"
  using assms
proof (induction es arbitrary: store)
  case Nil
  then show ?case by simp
next
  case (Cons e rest)
  define weight where "weight = rnd (real_of_int (sum_list (map snd (snd e))))"
  have here: "map_of store (fst e) = Some (new_node (fst e))"
    using Cons.prems(3) by simp
  obtain store1 where
    inner: "connect_letters rnd (fst e) weight (snd e) store = Inr store1"
    and outer: "connect_nodes rnd rest store1 = Inr store'"
    using Cons.prems(1) here
    by (auto simp: Let_def weight_def split: sum.splits)
  have sh: "map fst store1 = map fst store
            \<and> map_of store1 = (map_of store)(fst e \<mapsto> built_node rnd (fst e) (snd e))"
    using connect_letters_shape [OF inner here]
    by (simp add: new_node_def built_node_def edges_of_def weight_def)
  have others: "\<forall>e' \<in> set rest. map_of store1 (fst e') = Some (new_node (fst e'))"
  proof
    fix e' assume e': "e' \<in> set rest"
    then have "fst e' \<in> set (map fst rest)" by simp
    moreover have "fst e \<notin> set (map fst rest)" using Cons.prems(2) by simp
    ultimately have "fst e' \<noteq> fst e" by metis
    then show "map_of store1 (fst e') = Some (new_node (fst e'))"
      using sh Cons.prems(3) e' by simp
  qed
  have ih: "map fst store' = map fst store1
         \<and> (\<forall>g. map_of store' g =
               (case map_of rest g of
                  Some letters \<Rightarrow> Some (built_node rnd g letters)
                | None \<Rightarrow> map_of store1 g))"
    using Cons.IH [OF outer _ others] Cons.prems(2) by simp
  have none: "map_of rest (fst e) = None"
    using Cons.prems(2) by (simp add: map_of_eq_None_iff)
  show ?case
  proof (intro conjI allI)
    show "map fst store' = map fst store" using ih sh by simp
  next
    fix g
    show "map_of store' g =
            (case map_of (e # rest) g of
               Some letters \<Rightarrow> Some (built_node rnd g letters)
             | None \<Rightarrow> map_of store g)"
    proof (cases "g = fst e")
      case True
      then show ?thesis using ih sh none by (cases e) simp
    next
      case False
      then show ?thesis using ih sh by (cases e) (simp split: option.splits)
    qed
  qed
qed

lemma create_nodes_eq:
  assumes "distinct (map fst ngrams)"
  shows "create_nodes ngrams = map (\<lambda>g. (g, new_node g)) (map fst ngrams)"
proof -
  have "distinct ks \<Longrightarrow> set ks \<inter> fst ` set acc = {} \<Longrightarrow>
        foldl (\<lambda>chain_nodes g. AList.update g (new_node g) chain_nodes) acc ks
          = acc @ map (\<lambda>g. (g, new_node g)) ks" for ks and acc :: chain
  proof (induction ks arbitrary: acc)
    case Nil
    then show ?case by simp
  next
    case (Cons k ks)
    have "k \<notin> fst ` set acc" using Cons.prems(2) by auto
    then have u: "AList.update k (new_node k) acc = acc @ [(k, new_node k)]"
      by (rule update_new_key)
    show ?case using Cons.IH [of "acc @ [(k, new_node k)]"] Cons.prems u
      by (auto simp: image_Un)
  qed
  from this [of "map fst ngrams" "[]"] assms show ?thesis
    by (simp add: create_nodes_def)
qed

theorem build_markov_chain_shape:
  assumes "build_markov_chain rnd ngrams = Inr chain"
    and "distinct (map fst ngrams)"
  shows "chain = map (\<lambda>e. (fst e, built_node rnd (fst e) (snd e))) ngrams"
proof -
  let ?init = "create_nodes ngrams"
  have init: "?init = map (\<lambda>g. (g, new_node g)) (map fst ngrams)"
    using assms(2) by (rule create_nodes_eq)
  have look: "\<forall>e \<in> set ngrams. map_of ?init (fst e) = Some (new_node (fst e))"
    unfolding init map_of_map_restrict by (auto simp: restrict_map_def)
  have run: "connect_nodes rnd ngrams ?init = Inr chain"
    using assms(1) by (simp add: build_markov_chain_def)
  from connect_nodes_shape [OF run assms(2) look]
  have keys: "map fst chain = map fst ngrams"
    and vals: "\<And>g. map_of chain g =
               (case map_of ngrams g of
                  Some letters \<Rightarrow> Some (built_node rnd g letters)
                | None \<Rightarrow> map_of ?init g)"
    by (simp_all add: init comp_def)
  show ?thesis
  proof (intro nth_equalityI)
    show "length chain = length (map (\<lambda>e. (fst e, built_node rnd (fst e) (snd e))) ngrams)"
      using keys by (metis length_map)
  next
    fix i assume "i < length chain"
    then have i: "i < length ngrams" using keys by (metis length_map)
    have d: "distinct (map fst chain)" using keys assms(2) by simp
    have f: "fst (chain ! i) = fst (ngrams ! i)"
      using keys i by (metis length_map nth_map)
    have "map_of ngrams (fst (ngrams ! i)) = Some (snd (ngrams ! i))"
      using assms(2) i by (simp add: map_of_eq_Some_iff)
    then have "map_of chain (fst (chain ! i)) =
                 Some (built_node rnd (fst (ngrams ! i)) (snd (ngrams ! i)))"
      using vals [of "fst (chain ! i)"] f by simp
    moreover have "map_of chain (fst (chain ! i)) = Some (snd (chain ! i))"
      using d \<open>i < length chain\<close> by (simp add: map_of_eq_Some_iff)
    ultimately show "chain ! i = map (\<lambda>e. (fst e, built_node rnd (fst e) (snd e))) ngrams ! i"
      using f i by (simp add: prod_eq_iff)
  qed
qed

lemma set_update_subset: "set (AList.update k v al) \<subseteq> insert (k, v) (set al)"
  by (induction al) auto

lemma positive_counts_add_occurrence:
  assumes "positive_counts t"
  shows "positive_counts (add_occurrence t g c)"
proof -
  define d where "d = (case map_of t g of None \<Rightarrow> [] | Some d \<Rightarrow> d)"
  define d' where "d' = (case map_of d c of Some m \<Rightarrow> AList.update c (m + 1) d
                          | None \<Rightarrow> AList.update c 1 d)"
  have a: "add_occurrence t g c = AList.update g d' t"
    unfolding add_occurrence_def Let_def d'_def d_def by (rule refl)
  have pd: "\<forall>item \<in> set d. 1 \<le> snd item"
  proof (cases "map_of t g")
    case None
    then show ?thesis by (simp add: d_def)
  next
    case (Some d0)
    then have "(g, d0) \<in> set t" by (rule map_of_SomeD)
    then show ?thesis using assms Some by (auto simp: d_def positive_counts_def)
  qed
  have ne: "d' \<noteq> []" by (simp add: d'_def split: option.splits)
  have pd': "\<forall>item \<in> set d'. 1 \<le> snd item"
  proof (cases "map_of d c")
    case None
    then have "set d' \<subseteq> insert (c, 1) (set d)" by (simp add: d'_def set_update_subset)
    then show ?thesis using pd by auto
  next
    case (Some m)
    then have "(c, m) \<in> set d" by (rule map_of_SomeD)
    then have "1 \<le> m" using pd by auto
    moreover have "set d' \<subseteq> insert (c, m + 1) (set d)"
      using Some by (simp add: d'_def set_update_subset)
    ultimately show ?thesis using pd by auto
  qed
  have sub: "set (AList.update g d' t) \<subseteq> insert (g, d') (set t)" by (rule set_update_subset)
  show ?thesis
    unfolding a positive_counts_def
  proof
    fix e assume "e \<in> set (AList.update g d' t)"
    then have "e = (g, d') \<or> e \<in> set t" using sub by auto
    then show "snd e \<noteq> [] \<and> (\<forall>item \<in> set (snd e). 1 \<le> snd item)"
    proof
      assume "e = (g, d')"
      then show ?thesis using ne pd' by simp
    next
      assume "e \<in> set t"
      then show ?thesis using assms unfolding positive_counts_def by blast
    qed
  qed
qed

lemma positive_counts_record_all: "positive_counts t \<Longrightarrow> positive_counts (record_all t obs)"
  by (induction obs arbitrary: t) (simp_all add: record_all_def positive_counts_add_occurrence)

lemma table_pairs_wf:
  assumes "wf_counts t" "e \<in> set t" "item \<in> set (snd e)"
  shows "(fst e, fst item) \<in> table_pairs t"
proof -
  have "map_of t (fst e) = Some (snd e)"
    using assms(1,2) by (simp add: wf_counts_def)
  moreover have "map_of (snd e) (fst item) = Some (snd item)"
    using assms by (simp add: wf_counts_def)
  ultimately show ?thesis by (simp add: table_pairs_def)
qed

lemma computed_table:
  assumes "0 < k" "k \<le> int (length text)"
  defines "t \<equiv> record_all [] (observations text (nat k))"
  shows "compute_ngram_counts text k = Inr t"
    and "wf_counts t" and "positive_counts t" and "closed_table t"
    and "t \<noteq> []" and "\<forall>e \<in> set t. int (length (fst e)) = k"
    and "\<forall>e \<in> set t. \<forall>item \<in> set (snd e). length (fst item) = 1"
proof -
  have k0: "0 \<le> k" using assms(1) by simp
  show "compute_ngram_counts text k = Inr t"
    unfolding t_def using k0 assms(2) by (rule compute_ngram_counts_record_all)
  show wf: "wf_counts t"
    unfolding t_def by (rule wf_counts_record_all) (simp add: wf_counts_def)
  show "positive_counts t"
    unfolding t_def by (rule positive_counts_record_all) (simp add: positive_counts_def)
  have keys: "fst ` set t = fst ` set (observations text (nat k))"
    unfolding t_def by (simp add: keys_record_all)
  have pairs: "table_pairs t = set (observations text (nat k))"
    unfolding t_def table_pairs_record_all by (simp add: table_pairs_def)
  have n: "0 < length text" using assms(1,2) by (cases "text") auto
  show "closed_table t"
    unfolding closed_table_def
  proof (intro ballI)
    fix e item assume e: "e \<in> set t" and item: "item \<in> set (snd e)"
    have "(fst e, fst item) \<in> set (observations text (nat k))"
      using table_pairs_wf [OF wf e item] pairs by simp
    then obtain i where i: "i < length text"
      and g: "fst e = circular_ngram text (nat k) i"
      and c: "fst item = [circular_next text (nat k) i]"
      by (auto simp: observations_def)
    have "drop 1 (fst e) @ fst item = circular_ngram text (nat k) ((i + 1) mod length text)"
      unfolding g c using assms(1) i by (intro circular_shift) simp_all
    moreover have "(i + 1) mod length text < length text" using n by simp
    ultimately have "drop 1 (fst e) @ fst item \<in> fst ` set (observations text (nat k))"
      unfolding observations_def by (force simp: image_iff)
    then show "drop 1 (fst e) @ fst item \<in> fst ` set t" using keys by simp
  qed
  have "fst ` set t \<noteq> {}" unfolding keys using n by (simp add: observations_def)
  then show "t \<noteq> []" by auto
  show "\<forall>e \<in> set t. int (length (fst e)) = k"
  proof
    fix e assume "e \<in> set t"
    then have "fst e \<in> fst ` set (observations text (nat k))" using keys by auto
    then show "int (length (fst e)) = k"
      using assms(1) by (auto simp: observations_def circular_ngram_def)
  qed
  show "\<forall>e \<in> set t. \<forall>item \<in> set (snd e). length (fst item) = 1"
  proof (intro ballI)
    fix e item assume e: "e \<in> set t" and item: "item \<in> set (snd e)"
    have "(fst e, fst item) \<in> set (observations text (nat k))"
      using table_pairs_wf [OF wf e item] pairs by simp
    then show "length (fst item) = 1" by (auto simp: observations_def)
  qed
qed

lemma connect_letters_runs:
  assumes "map_of store g = Some nd"
    and "\<forall>item \<in> set letters. drop 1 g @ fst item \<in> fst ` set store"
  shows "if weight = 0 \<and> letters \<noteq> []
         then connect_letters rnd g weight letters store = Inl ZeroDivisionError
         else (\<exists>store'. connect_letters rnd g weight letters store = Inr store')"
  using assms
proof (induction letters arbitrary: store nd)
  case Nil
  then show ?case by simp
next
  case (Cons item rest)
  have "drop 1 g @ fst item \<in> fst ` set store" using Cons.prems(2) by simp
  then obtain tn where tn: "map_of store (drop 1 g @ fst item) = Some tn"
    by (metis map_of_eq_None_iff not_Some_eq)
  show ?case
  proof (cases "weight = 0")
    case True
    then show ?thesis using tn by (simp add: Let_def)
  next
    case False
    define nd1 where "nd1 = add_next_state nd (drop 1 g @ fst item)
                              (rnd (rnd (real_of_int (snd item)) / weight))"
    define store1 where "store1 = AList.update g nd1 store"
    have m1: "map_of store1 g = Some nd1" by (simp add: store1_def update_conv')
    have "fst ` set store1 = fst ` set store"
      using Cons.prems(1) by (auto simp: store1_def dom_update dest: map_of_SomeD intro: rev_image_eqI)
    then have c1: "\<forall>item \<in> set rest. drop 1 g @ fst item \<in> fst ` set store1"
      using Cons.prems(2) by simp
    have "\<exists>store'. connect_letters rnd g weight rest store1 = Inr store'"
      using Cons.IH [OF m1 c1] False by simp
    then show ?thesis
      using False tn Cons.prems(1) by (simp add: Let_def nd1_def store1_def)
  qed
qed

lemma connect_nodes_runs:
  assumes "distinct (map fst es)"
    and "\<forall>e \<in> set es. map_of store (fst e) = Some (new_node (fst e))"
    and "\<forall>e \<in> set es. \<forall>item \<in> set (snd e). drop 1 (fst e) @ fst item \<in> fst ` set store"
  shows "(\<exists>store'. connect_nodes rnd es store = Inr store')
         \<or> (connect_nodes rnd es store = Inl ZeroDivisionError
            \<and> (\<exists>e \<in> set es. snd e \<noteq> [] \<and> rnd (real_of_int (sum_list (map snd (snd e)))) = 0))"
  using assms
proof (induction es arbitrary: store)
  case Nil
  then show ?case by simp
next
  case (Cons e rest)
  define weight where "weight = rnd (real_of_int (sum_list (map snd (snd e))))"
  have here: "map_of store (fst e) = Some (new_node (fst e))"
    using Cons.prems(2) by simp
  have cl: "\<forall>item \<in> set (snd e). drop 1 (fst e) @ fst item \<in> fst ` set store"
    using Cons.prems(3) by simp
  note inner = connect_letters_runs [OF here cl, of weight rnd]
  show ?case
  proof (cases "weight = 0 \<and> snd e \<noteq> []")
    case True
    then have "connect_letters rnd (fst e) weight (snd e) store = Inl ZeroDivisionError"
      using inner by simp
    then have "connect_nodes rnd (e # rest) store = Inl ZeroDivisionError"
      using here unfolding weight_def by (simp add: Let_def)
    moreover have "\<exists>e' \<in> set (e # rest). snd e' \<noteq> []
                     \<and> rnd (real_of_int (sum_list (map snd (snd e')))) = 0"
      using True unfolding weight_def by simp
    ultimately show ?thesis by blast
  next
    case False
    then obtain store1 where
      s1: "connect_letters rnd (fst e) weight (snd e) store = Inr store1"
      using inner by auto
    have step: "connect_nodes rnd (e # rest) store = connect_nodes rnd rest store1"
      using s1 here unfolding weight_def by (simp add: Let_def)
    have sh: "map fst store1 = map fst store
              \<and> map_of store1 =
                  (map_of store)(fst e \<mapsto> new_node (fst e)\<lparr>next_states :=
                     sort_key (\<lambda>pair. - snd pair)
                       (next_states (new_node (fst e))
                        @ map (\<lambda>item. (drop 1 (fst e) @ fst item,
                                        rnd (rnd (real_of_int (snd item)) / weight)))
                              (snd e))\<rparr>)"
      by (rule connect_letters_shape [OF s1 here]) (simp add: new_node_def)
    have "set (map fst store1) = set (map fst store)" using sh by simp
    then have keys: "fst ` set store1 = fst ` set store" by simp
    have others: "\<forall>e' \<in> set rest. map_of store1 (fst e') = Some (new_node (fst e'))"
    proof
      fix e' assume e': "e' \<in> set rest"
      then have "fst e' \<in> set (map fst rest)" by simp
      moreover have "fst e \<notin> set (map fst rest)" using Cons.prems(1) by simp
      ultimately have "fst e' \<noteq> fst e" by metis
      then show "map_of store1 (fst e') = Some (new_node (fst e'))"
        using sh Cons.prems(2) e' by simp
    qed
    have cl': "\<forall>e' \<in> set rest. \<forall>item \<in> set (snd e').
                 drop 1 (fst e') @ fst item \<in> fst ` set store1"
      using Cons.prems(3) keys by simp
    have d: "distinct (map fst rest)" using Cons.prems(1) by simp
    from Cons.IH [OF d others cl'] show ?thesis
      unfolding step by auto
  qed
qed

lemma build_markov_chain_runs:
  assumes "distinct (map fst ngrams)" and "closed_table ngrams"
  shows "(\<exists>chain. build_markov_chain rnd ngrams = Inr chain)
         \<or> (build_markov_chain rnd ngrams = Inl ZeroDivisionError
            \<and> (\<exists>e \<in> set ngrams. snd e \<noteq> []
                  \<and> rnd (real_of_int (sum_list (map snd (snd e)))) = 0))"
proof -
  let ?init = "create_nodes ngrams"
  have init: "?init = map (\<lambda>g. (g, new_node g)) (map fst ngrams)"
    using assms(1) by (rule create_nodes_eq)
  have look: "\<forall>e \<in> set ngrams. map_of ?init (fst e) = Some (new_node (fst e))"
    unfolding init map_of_map_restrict by (auto simp: restrict_map_def)
  have "fst ` set ?init = fst ` set ngrams"
    unfolding init by (simp add: image_image)
  then have cl: "\<forall>e \<in> set ngrams. \<forall>item \<in> set (snd e).
                   drop 1 (fst e) @ fst item \<in> fst ` set ?init"
    using assms(2) by (simp add: closed_table_def)
  from connect_nodes_runs [OF assms(1) look cl] show ?thesis
    by (simp add: build_markov_chain_def)
qed

lemma sum_list_positive:
  fixes xs :: "int list"
  assumes "xs \<noteq> []" "\<forall>x \<in> set xs. 1 \<le> x"
  shows "1 \<le> sum_list xs"
  using assms
proof (induction xs)
  case Nil
  then show ?case by simp
next
  case (Cons x xs)
  have "0 \<le> sum_list xs" using Cons.prems(2) by (intro sum_list_nonneg) auto
  then show ?case using Cons.prems(2) by simp
qed

text \<open>
  Claim C4. For a positive \<open>k\<close> and a text of at least \<open>k\<close> characters, the table of
  \<open>compute_ngram_counts\<close> is closed under the sliding window: for every n-gram of the table
  and every letter recorded after it, the n-gram without its first character followed by
  that letter is a key of the table. So no lookup of a next node fails: the build never
  raises KeyError, and it returns a chain whenever the total of a node, as a float, is not
  zero (whatever the rounding, as long as no integer from 1 on is rounded to zero).
\<close>

theorem build_never_misses_a_state:
  assumes "0 < k" and "k \<le> int (length text)"
  shows "\<exists>ngrams. compute_ngram_counts text k = Inr ngrams
           \<and> (\<forall>e \<in> set ngrams. \<forall>item \<in> set (snd e).
                 drop 1 (fst e) @ fst item \<in> fst ` set ngrams)
           \<and> build_markov_chain rnd ngrams \<noteq> Inl KeyError
           \<and> ((\<forall>n::int. 1 \<le> n \<longrightarrow> rnd (real_of_int n) \<noteq> 0)
                \<longrightarrow> (\<exists>chain. build_markov_chain rnd ngrams = Inr chain))"
proof -
  define t where "t = record_all [] (observations text (nat k))"
  note facts = computed_table [OF assms, folded t_def]
  have d: "distinct (map fst t)" using facts(2) by (simp add: wf_counts_def)
  note runs = build_markov_chain_runs [OF d facts(4), of rnd]
  have no_key: "build_markov_chain rnd t \<noteq> Inl KeyError"
    using runs by auto
  have ok: "\<exists>chain. build_markov_chain rnd t = Inr chain"
    if r: "\<forall>n::int. 1 \<le> n \<longrightarrow> rnd (real_of_int n) \<noteq> 0"
  proof -
    have "rnd (real_of_int (sum_list (map snd (snd e)))) \<noteq> 0" if "e \<in> set t" for e
    proof -
      have "snd e \<noteq> []" and "\<forall>item \<in> set (snd e). 1 \<le> snd item"
        using facts(3) that by (auto simp: positive_counts_def)
      then have "1 \<le> sum_list (map snd (snd e))"
        by (intro sum_list_positive) auto
      then show ?thesis using r by blast
    qed
    then show ?thesis using runs by blast
  qed
  have "\<forall>e \<in> set t. \<forall>item \<in> set (snd e). drop 1 (fst e) @ fst item \<in> fst ` set t"
    using facts(4) by (simp add: closed_table_def)
  then show ?thesis using facts(1) no_key ok by blast
qed

theorem build_never_misses_a_state_witness:
  "\<exists>ngrams. compute_ngram_counts [97, 98, 97, 98] 1 = Inr ngrams
     \<and> (\<forall>e \<in> set ngrams. \<forall>item \<in> set (snd e).
           drop 1 (fst e) @ fst item \<in> fst ` set ngrams)
     \<and> build_markov_chain (\<lambda>x. x) ngrams \<noteq> Inl KeyError
     \<and> (\<exists>chain. build_markov_chain (\<lambda>x. x) ngrams = Inr chain)"
  using build_never_misses_a_state [of 1 "[97, 98, 97, 98]" "\<lambda>x. x"] by simp

lemma sum_list_sort_key: 
  fixes f :: "'a \<Rightarrow> real"
  shows "sum_list (map f (sort_key g xs)) = sum_list (map f xs)"
proof -
  have "mset (map f (sort_key g xs)) = mset (map f xs)" by simp
  then show ?thesis by (metis sum_mset_sum_list)
qed

lemma rounded_shares_sum:
  fixes cs :: "int list" and u :: real
  assumes pos: "\<forall>c \<in> set cs. 1 \<le> c" and ne: "cs \<noteq> []"
    and err: "\<forall>x. \<bar>rnd x - x\<bar> \<le> u * \<bar>x\<bar>"
  shows "\<bar>sum_list (map (\<lambda>c. rnd (real_of_int c / real_of_int (sum_list cs))) cs) - 1\<bar> \<le> u"
proof -
  define W where "W = real_of_int (sum_list cs)"
  have "1 \<le> sum_list cs" using ne pos by (rule sum_list_positive)
  then have W: "0 < W" by (simp add: W_def)
  have exact: "sum_list (map (\<lambda>c. real_of_int c / W) cs) = 1"
  proof -
    have "sum_list (map (\<lambda>c. real_of_int c / W) cs) = sum_list (map real_of_int cs) / W"
      by (simp add: divide_inverse sum_list_mult_const)
    also have "sum_list (map real_of_int cs) = W"
      unfolding W_def by (induction cs) simp_all
    finally show ?thesis using W by simp
  qed
  have "sum_list (map (\<lambda>c. rnd (real_of_int c / W)) cs) - 1
          = sum_list (map (\<lambda>c. rnd (real_of_int c / W) - real_of_int c / W) cs)"
    by (simp add: sum_list_subtractf exact)
  also have "\<bar>\<dots>\<bar> \<le> sum_list (map (\<lambda>c. \<bar>rnd (real_of_int c / W) - real_of_int c / W\<bar>) cs)"
    using sum_list_abs [of "map (\<lambda>c. rnd (real_of_int c / W) - real_of_int c / W) cs"]
    by (simp add: comp_def)
  also have "\<dots> \<le> sum_list (map (\<lambda>c. u * (real_of_int c / W)) cs)"
  proof (rule sum_list_mono)
    fix c assume "c \<in> set cs"
    then have "0 \<le> real_of_int c / W" using pos W by auto
    then have "\<bar>real_of_int c / W\<bar> = real_of_int c / W" by (rule abs_of_nonneg)
    then show "\<bar>rnd (real_of_int c / W) - real_of_int c / W\<bar> \<le> u * (real_of_int c / W)"
      using err [rule_format, of "real_of_int c / W"] by (simp only:)
  qed
  also have "\<dots> = u * sum_list (map (\<lambda>c. real_of_int c / W) cs)"
    by (rule sum_list_const_mult)
  also have "\<dots> = u" by (simp only: exact mult_1_right)
  finally show ?thesis by (simp add: W_def)
qed






section \<open>Properties of generate\_text\<close>

lemma select_state_target:
  "select_state rnd states probability = Some key \<Longrightarrow> key \<in> fst ` set states"
  by (induction states arbitrary: probability) (auto split: if_splits)

lemma py_index_last: "xs \<noteq> [] \<Longrightarrow> py_index xs (- 1) = Inr (last xs)"
  by (cases xs rule: rev_cases) (simp_all add: py_index_def)

lemma walk_scans:
  assumes "\<forall>nd \<in> snd ` set chain. \<forall>e \<in> set (next_states nd). fst e \<in> fst ` set chain"
    and "\<forall>nd \<in> snd ` set chain. ngram nd \<noteq> []"
    and "nd \<in> snd ` set chain"
    and "int (length sofar) = len"
  shows "if scans_resolve rnd chain draws nd used (nat (target - len))
         then (\<exists>out. walk rnd chain target draws nd sofar len used
                        = Inr (out, used + nat (target - len))
                 \<and> int (length out) = max len target
                 \<and> take (length sofar) out = sofar)
         else (\<exists>nd' \<in> snd ` set chain. \<exists>j. used \<le> j \<and> j < used + nat (target - len)
                 \<and> select_state rnd (next_states nd') (draws j) = None
                 \<and> walk rnd chain target draws nd sofar len used
                     = Inl (Exception [lit ''No next state found for '' @ [39] @ lit ''{0}'',
                                       ngram nd']))"
  using assms
proof (induction rnd chain target draws nd sofar len used rule: walk.induct)
  case (1 rnd chain target draws nd sofar len used)
  show ?case
  proof (cases "len < target")
    case False
    then have "nat (target - len) = 0" by simp
    then show ?thesis using False "1.prems"(4) by (simp add: walk.simps [of _ _ target])
  next
    case True
    then have n: "nat (target - len) = Suc (nat (target - (len + 1)))" by simp
    show ?thesis
    proof (cases "select_state rnd (next_states nd) (draws used)")
      case None
      then have "walk rnd chain target draws nd sofar len used
                   = Inl (Exception [lit ''No next state found for '' @ [39] @ lit ''{0}'',
                                     ngram nd])"
        using True by (simp add: walk.simps [of _ _ _ _ nd] get_next_state_def)
      moreover have "\<not> scans_resolve rnd chain draws nd used (nat (target - len))"
        unfolding n using None by simp
      moreover have "used < used + nat (target - len)" using True by simp
      ultimately show ?thesis using None "1.prems"(3) by (auto intro!: bexI [of _ nd] exI [of _ used])
    next
      case (Some key)
      then have sel: "select_state rnd (next_states nd) (draws used) = Some key" .
      then have gns: "get_next_state rnd nd (draws used) = Inr key"
        by (simp add: get_next_state_def)
      have "key \<in> fst ` set (next_states nd)" using sel by (rule select_state_target)
      then have "key \<in> fst ` set chain" using "1.prems"(1,3) by auto
      then obtain nd' where look: "map_of chain key = Some nd'"
        by (metis map_of_eq_None_iff not_Some_eq)
      then have "(key, nd') \<in> set chain" by (rule map_of_SomeD)
      then have nd': "nd' \<in> snd ` set chain" by force
      then have "ngram nd' \<noteq> []" using "1.prems"(2) by blast
      then have idx: "py_index (ngram nd') (- 1) = Inr (last (ngram nd'))"
        by (rule py_index_last)
      have len': "int (length (sofar @ [last (ngram nd')])) = len + 1"
        using "1.prems"(4) by simp
      have step: "walk rnd chain target draws nd sofar len used
              = walk rnd chain target draws nd' (sofar @ [last (ngram nd')]) (len + 1) (used + 1)"
        using True gns look idx by (simp add: walk.simps [of _ _ _ _ nd])
      have res: "scans_resolve rnd chain draws nd used (nat (target - len))
                   = scans_resolve rnd chain draws nd' (used + 1) (nat (target - (len + 1)))"
        unfolding n using sel look by simp
      note ih = "1.IH" [OF True gns look idx "1.prems"(1,2) nd' len']
      show ?thesis
      proof (cases "scans_resolve rnd chain draws nd' (used + 1) (nat (target - (len + 1)))")
        case True
        then obtain out where
          w: "walk rnd chain target draws nd' (sofar @ [last (ngram nd')]) (len + 1) (used + 1)
                = Inr (out, used + 1 + nat (target - (len + 1)))"
          and l: "int (length out) = max (len + 1) target"
          and t: "take (length (sofar @ [last (ngram nd')])) out = sofar @ [last (ngram nd')]"
          using ih by auto
        have "used + 1 + nat (target - (len + 1)) = used + nat (target - len)"
          using \<open>len < target\<close> by simp
        moreover have "max (len + 1) target = max len target" using \<open>len < target\<close> by simp
        moreover have "take (length sofar) out = sofar"
        proof -
          have "take (length sofar) (take (length (sofar @ [last (ngram nd')])) out)
                  = take (length sofar) out"
            by (simp add: min_def)
          then show ?thesis unfolding t by simp
        qed
        ultimately show ?thesis unfolding step res using True w l by simp
      next
        case False
        then obtain bad j where "bad \<in> snd ` set chain"
          and "used + 1 \<le> j" and "j < used + 1 + nat (target - (len + 1))"
          and "select_state rnd (next_states bad) (draws j) = None"
          and "walk rnd chain target draws nd' (sofar @ [last (ngram nd')]) (len + 1) (used + 1)
                 = Inl (Exception [lit ''No next state found for '' @ [39] @ lit ''{0}'',
                                   ngram bad])"
          using ih by auto
        moreover have "used + 1 + nat (target - (len + 1)) = used + nat (target - len)"
          using \<open>len < target\<close> by simp
        ultimately show ?thesis unfolding step res using False
          by (auto intro!: bexI [of _ bad] exI [of _ j])
      qed
    qed
  qed
qed

lemma select_state_exact:
  "0 \<le> p \<Longrightarrow> p < sum_list (map snd states) \<Longrightarrow> \<forall>x. rnd x = x \<Longrightarrow>
   select_state rnd states p \<noteq> None"
  by (induction states arbitrary: p) auto

lemma connect_letters_keys:
  "connect_letters rnd g weight letters store = Inr store' \<Longrightarrow>
   fst ` set store' = fst ` set store
   \<and> (\<forall>item \<in> set letters. drop 1 g @ fst item \<in> fst ` set store)"
proof (induction letters arbitrary: store)
  case Nil
  then show ?case by simp
next
  case (Cons item rest)
  from Cons.prems obtain tn nd where
    tn: "map_of store (drop 1 g @ fst item) = Some tn"
    and nd: "map_of store g = Some nd"
    and run: "connect_letters rnd g weight rest
                (AList.update g (add_next_state nd (drop 1 g @ fst item)
                                   (rnd (rnd (real_of_int (snd item)) / weight))) store)
              = Inr store'"
    by (auto simp: Let_def split: option.splits if_splits)
  have g: "g \<in> fst ` set store"
    using nd by (metis map_of_eq_None_iff option.distinct(1))
  have t: "drop 1 g @ fst item \<in> fst ` set store"
    using tn by (metis map_of_eq_None_iff option.distinct(1))
  have same: "fst ` set (AList.update g (add_next_state nd (drop 1 g @ fst item)
                                   (rnd (rnd (real_of_int (snd item)) / weight))) store)
              = fst ` set store"
    using g by (auto simp: dom_update)
  from Cons.IH [OF run] show ?case unfolding same using t by simp
qed

lemma connect_nodes_keys:
  "connect_nodes rnd es store = Inr store' \<Longrightarrow>
   fst ` set store' = fst ` set store
   \<and> (\<forall>e \<in> set es. \<forall>item \<in> set (snd e). drop 1 (fst e) @ fst item \<in> fst ` set store)"
proof (induction es arbitrary: store)
  case Nil
  then show ?case by simp
next
  case (Cons e rest)
  from Cons.prems obtain store1 where
    inner: "connect_letters rnd (fst e) (rnd (real_of_int (sum_list (map snd (snd e))))) (snd e) store
              = Inr store1"
    and outer: "connect_nodes rnd rest store1 = Inr store'"
    by (auto simp: Let_def split: option.splits sum.splits)
  from connect_letters_keys [OF inner] Cons.IH [OF outer] show ?case by simp
qed

lemma create_nodes_keys: "fst ` set (create_nodes ngrams) = fst ` set ngrams"
proof -
  have "fst ` set (foldl (\<lambda>chain_nodes g. AList.update g (new_node g) chain_nodes) acc ks)
          = set ks \<union> fst ` set acc" for ks and acc :: chain
    by (induction ks arbitrary: acc) (auto simp: dom_update)
  from this [of "[]" "map fst ngrams"] show ?thesis by (simp add: create_nodes_def)
qed

lemma build_markov_chain_closed:
  assumes "build_markov_chain rnd ngrams = Inr chain"
  shows "closed_table ngrams"
  using connect_nodes_keys [OF assms [unfolded build_markov_chain_def]]
  by (simp add: closed_table_def create_nodes_keys)

lemma built_chain_targets:
  assumes "build_markov_chain rnd ngrams = Inr chain" and "distinct (map fst ngrams)"
  shows "\<forall>nd \<in> snd ` set chain. \<forall>e \<in> set (next_states nd). fst e \<in> fst ` set chain"
proof (intro ballI)
  fix nd e assume nd: "nd \<in> snd ` set chain" and e: "e \<in> set (next_states nd)"
  have chain: "chain = map (\<lambda>e. (fst e, built_node rnd (fst e) (snd e))) ngrams"
    using assms by (rule build_markov_chain_shape)
  have keys: "fst ` set chain = fst ` set ngrams" by (simp add: chain image_image)
  from nd obtain entry where entry: "entry \<in> set ngrams"
    and nd_eq: "nd = built_node rnd (fst entry) (snd entry)"
    by (auto simp: chain)
  have "e \<in> set (edges_of rnd (fst entry) (snd entry))"
    using e by (simp add: nd_eq built_node_def)
  then obtain item where "item \<in> set (snd entry)" and "fst e = drop 1 (fst entry) @ fst item"
    by (auto simp: edges_of_def)
  then show "fst e \<in> fst ` set chain"
    using build_markov_chain_closed [OF assms(1)] entry keys by (simp add: closed_table_def)
qed

lemma scans_resolve_exact:
  assumes "\<forall>nd \<in> snd ` set chain. \<forall>e \<in> set (next_states nd). fst e \<in> fst ` set chain"
    and "\<forall>nd \<in> snd ` set chain. sum_list (map snd (next_states nd)) = 1"
    and "\<forall>x. rnd x = x" and "\<forall>j. 0 \<le> draws j \<and> draws j < 1"
  shows "nd \<in> snd ` set chain \<Longrightarrow> scans_resolve rnd chain draws nd used n"
proof (induction n arbitrary: nd used)
  case 0
  then show ?case by simp
next
  case (Suc n)
  have "sum_list (map snd (next_states nd)) = 1" using assms(2) Suc.prems by blast
  then have "draws used < sum_list (map snd (next_states nd))" using assms(4) by simp
  moreover have "0 \<le> draws used" using assms(4) by simp
  ultimately have "select_state rnd (next_states nd) (draws used) \<noteq> None"
    using assms(3) by (intro select_state_exact)
  then obtain key where sel: "select_state rnd (next_states nd) (draws used) = Some key" by auto
  have "key \<in> fst ` set (next_states nd)" using sel by (rule select_state_target)
  then have "key \<in> fst ` set chain" using assms(1) Suc.prems by auto
  then obtain nd' where look: "map_of chain key = Some nd'"
    by (metis map_of_eq_None_iff not_Some_eq)
  then have "(key, nd') \<in> set chain" by (rule map_of_SomeD)
  then have "nd' \<in> snd ` set chain" by force
  then show ?case using sel look Suc.IH by simp
qed

lemma exact_node_sums:
  assumes "build_markov_chain rnd ngrams = Inr chain"
    and "distinct (map fst ngrams)"
    and "positive_counts ngrams"
    and "\<forall>x. rnd x = x"
  shows "\<forall>nd \<in> snd ` set chain. sum_list (map snd (next_states nd)) = 1"
proof
  fix nd assume nd: "nd \<in> snd ` set chain"
  have chain: "chain = map (\<lambda>e. (fst e, built_node rnd (fst e) (snd e))) ngrams"
    using assms(1,2) by (rule build_markov_chain_shape)
  from nd obtain entry where entry: "entry \<in> set ngrams"
    and nd_eq: "nd = built_node rnd (fst entry) (snd entry)"
    by (auto simp: chain)
  have p1: "\<forall>c \<in> set (map snd (snd entry)). 1 \<le> c"
    and p2: "map snd (snd entry) \<noteq> []"
    using assms(3) entry by (auto simp: positive_counts_def)
  have err: "\<forall>x. \<bar>rnd x - x\<bar> \<le> 0 * \<bar>x\<bar>" using assms(4) by simp
  have "map snd (edges_of rnd (fst entry) (snd entry))
          = map (\<lambda>c. rnd (real_of_int c / real_of_int (sum_list (map snd (snd entry)))))
                (map snd (snd entry))"
    using assms(4) by (simp add: edges_of_def)
  then have "sum_list (map snd (next_states nd))
          = sum_list (map (\<lambda>c. rnd (real_of_int c / real_of_int (sum_list (map snd (snd entry)))))
                          (map snd (snd entry)))"
    unfolding nd_eq built_node_def by (simp only: MarkovChainNode.simps sum_list_sort_key)
  then show "sum_list (map snd (next_states nd)) = 1"
    using rounded_shares_sum [OF p1 p2 err] by simp
qed

lemma generate_text_scans:
  assumes built: "build_markov_chain rnd ngrams = Inr chain"
    and dict: "distinct (map fst ngrams)"
    and some: "ngrams \<noteq> []"
    and lens: "\<forall>e \<in> set ngrams. int (length (fst e)) = k"
    and k: "1 \<le> k"
  shows "\<exists>start. map_of chain (map fst chain ! (pick mod length chain)) = Some start
           \<and> start \<in> snd ` set chain
           \<and> ngram start \<in> fst ` set chain
           \<and> int (length (ngram start)) = k
           \<and> (if scans_resolve rnd chain draws start 0 (nat (target - k))
              then (\<exists>out. generate_text rnd chain target pick draws = Inr (out, nat (target - k))
                      \<and> int (length out) = max k target
                      \<and> take (nat k) out = ngram start)
              else (\<exists>nd \<in> snd ` set chain. \<exists>j < nat (target - k).
                      select_state rnd (next_states nd) (draws j) = None
                      \<and> generate_text rnd chain target pick draws
                          = Inl (Exception [lit ''No next state found for '' @ [39] @ lit ''{0}'',
                                            ngram nd])))"
proof -
  have chain: "chain = map (\<lambda>e. (fst e, built_node rnd (fst e) (snd e))) ngrams"
    using built dict by (rule build_markov_chain_shape)
  have keys: "map fst chain = map fst ngrams" by (simp add: chain comp_def)
  have ne: "map fst chain \<noteq> []" using some keys by simp
  define key where "key = map fst chain ! (pick mod length chain)"
  have "pick mod length chain < length (map fst chain)" using ne by simp
  then have key_in: "key \<in> set (map fst chain)" unfolding key_def by (rule nth_mem)
  then obtain entry where entry: "entry \<in> set ngrams" and key_eq: "key = fst entry"
    unfolding keys by auto
  define nd where "nd = built_node rnd (fst entry) (snd entry)"
  have "(key, nd) \<in> set chain" using entry by (force simp: chain nd_def key_eq)
  moreover have "distinct (map fst chain)" using dict keys by simp
  ultimately have look: "map_of chain key = Some nd" by simp
  have nd_in: "nd \<in> snd ` set chain" using \<open>(key, nd) \<in> set chain\<close> by force
  have ng: "ngram nd = key" by (simp add: nd_def built_node_def key_eq)
  have len: "int (length (ngram nd)) = k" using lens entry by (simp add: ng key_eq)
  have nonempty: "\<forall>nd \<in> snd ` set chain. ngram nd \<noteq> []"
  proof
    fix nd' assume "nd' \<in> snd ` set chain"
    then obtain e' where "e' \<in> set ngrams" and "ngram nd' = fst e'"
      by (auto simp: chain built_node_def)
    then show "ngram nd' \<noteq> []" using lens k by auto
  qed
  have gen: "generate_text rnd chain target pick draws
               = walk rnd chain target draws nd (ngram nd) k 0"
  proof -
    have "map_of chain (map fst chain ! (pick mod length (map fst chain))) = Some nd"
      using look unfolding key_def by simp
    then show ?thesis
      unfolding generate_text_def Let_def using ne len by (simp only: if_False option.case)
  qed
  have nk: "nat k = length (ngram nd)" using len by simp
  note w = walk_scans [OF built_chain_targets [OF built dict] nonempty nd_in len,
                       of rnd draws 0 target]
  have "if scans_resolve rnd chain draws nd 0 (nat (target - k))
        then (\<exists>out. generate_text rnd chain target pick draws = Inr (out, nat (target - k))
                \<and> int (length out) = max k target
                \<and> take (nat k) out = ngram nd)
        else (\<exists>nd' \<in> snd ` set chain. \<exists>j < nat (target - k).
                select_state rnd (next_states nd') (draws j) = None
                \<and> generate_text rnd chain target pick draws
                    = Inl (Exception [lit ''No next state found for '' @ [39] @ lit ''{0}'',
                                      ngram nd']))"
  proof (cases "scans_resolve rnd chain draws nd 0 (nat (target - k))")
    case True
    then show ?thesis using w unfolding gen nk by simp
  next
    case False
    then show ?thesis using w unfolding gen by (simp only: if_False add_0 le0 simp_thms)
  qed
  moreover have "ngram nd \<in> fst ` set chain" using key_in ng by simp
  ultimately show ?thesis using look nd_in len unfolding key_def by blast
qed

lemma abab_counts:
  "compute_ngram_counts [97, 98, 97, 98] 1 = Inr [([97], [([98], 2)]), ([98], [([97], 2)])]"
  by code_simp

lemma abab2_counts:
  "compute_ngram_counts [97, 98, 97, 98] 2
     = Inr [([97, 98], [([97], 2)]), ([98, 97], [([98], 2)])]"
  by code_simp

lemma abab2_chain:
  "build_markov_chain (\<lambda>x. x) [([97, 98], [([97], 2)]), ([98, 97], [([98], 2)])]
     = Inr [([97, 98], \<lparr>ngram = [97, 98], next_states = [([98, 97], 1)]\<rparr>),
            ([98, 97], \<lparr>ngram = [98, 97], next_states = [([97, 98], 1)]\<rparr>)]"
  by (simp add: build_markov_chain_def create_nodes_def new_node_def add_next_state_def Let_def)

text \<open>
  Claim C10. For a chain built from the table of \<open>compute_ngram_counts\<close> (positive \<open>k\<close>,
  a text of at least \<open>k\<close> characters) and every integer \<open>target\<close>, also zero, negative
  or below \<open>k\<close>, \<open>generate_text\<close> terminates (\<open>walk\<close> is a total function) and
  starts at the node \<open>start\<close> that \<open>choice\<close> picks, whose n-gram has \<open>k\<close> characters.
  \<^item> For \<open>target \<le> k\<close> it makes no draw and returns the whole n-gram of \<open>start\<close>.
  \<^item> When each of the \<open>max 0 (target - k)\<close> weighted scans of the run finds an edge, it
    makes exactly \<open>max 0 (target - k)\<close> draws and returns a string of exactly
    \<open>max k target\<close> characters that begins with the whole n-gram of \<open>start\<close>.
  \<^item> Otherwise the weighted scan of a node of the chain, with one of the first
    \<open>target - k\<close> draws, finds no edge, and the exception that \<open>get_next_state\<close>
    raises for that node is the outcome.
  \<^item> In exact arithmetic (nothing is rounded) every scan with a draw in \<open>[0, 1)\<close> finds
    an edge.
\<close>

theorem generate_text_keeps_first_ngram:
  assumes "0 < k" and "k \<le> int (length text)"
    and "compute_ngram_counts text k = Inr ngrams"
    and "build_markov_chain rnd ngrams = Inr chain"
  shows "\<exists>start. map_of chain (map fst chain ! (pick mod length chain)) = Some start
           \<and> int (length (ngram start)) = k
           \<and> (target \<le> k \<longrightarrow>
                generate_text rnd chain target pick draws = Inr (ngram start, 0))
           \<and> (scans_resolve rnd chain draws start 0 (nat (target - k)) \<longrightarrow>
                (\<exists>out. generate_text rnd chain target pick draws
                          = Inr (out, nat (max 0 (target - k)))
                   \<and> int (length out) = max k target
                   \<and> take (nat k) out = ngram start))
           \<and> (\<not> scans_resolve rnd chain draws start 0 (nat (target - k)) \<longrightarrow>
                (\<exists>nd \<in> snd ` set chain. \<exists>j < nat (target - k).
                   select_state rnd (next_states nd) (draws j) = None
                   \<and> generate_text rnd chain target pick draws
                       = Inl (Exception [lit ''No next state found for '' @ [39] @ lit ''{0}'',
                                         ngram nd])))
           \<and> ((\<forall>x. rnd x = x) \<and> (\<forall>j. 0 \<le> draws j \<and> draws j < 1) \<longrightarrow>
                scans_resolve rnd chain draws start 0 (nat (target - k)))"
proof -
  note facts = computed_table [OF assms(1,2)]
  have t: "ngrams = record_all [] (observations text (nat k))"
    using facts(1) assms(3) by simp
  have dict: "distinct (map fst ngrams)" using facts(2) by (simp add: t wf_counts_def)
  have some: "ngrams \<noteq> []" using facts(5) by (simp add: t)
  have lens: "\<forall>e \<in> set ngrams. int (length (fst e)) = k" using facts(6) by (simp add: t)
  have pos: "positive_counts ngrams" using facts(3) by (simp add: t)
  have k: "1 \<le> k" using assms(1) by simp
  from generate_text_scans [OF assms(4) dict some lens k, of pick draws target]
  obtain start where
    look: "map_of chain (map fst chain ! (pick mod length chain)) = Some start"
    and start: "start \<in> snd ` set chain"
    and len: "int (length (ngram start)) = k"
    and run: "if scans_resolve rnd chain draws start 0 (nat (target - k))
              then (\<exists>out. generate_text rnd chain target pick draws = Inr (out, nat (target - k))
                      \<and> int (length out) = max k target
                      \<and> take (nat k) out = ngram start)
              else (\<exists>nd \<in> snd ` set chain. \<exists>j < nat (target - k).
                      select_state rnd (next_states nd) (draws j) = None
                      \<and> generate_text rnd chain target pick draws
                          = Inl (Exception [lit ''No next state found for '' @ [39] @ lit ''{0}'',
                                            ngram nd]))"
    by blast
  have m: "nat (max 0 (target - k)) = nat (target - k)" by simp
  have below: "generate_text rnd chain target pick draws = Inr (ngram start, 0)"
    if "target \<le> k"
  proof -
    have z: "nat (target - k) = 0" using that by simp
    from run obtain out where
      g: "generate_text rnd chain target pick draws = Inr (out, 0)"
      and l: "int (length out) = max k target"
      and p: "take (nat k) out = ngram start"
      unfolding z by auto
    have "length out = nat k" using l that by simp
    then have "out = ngram start" using p by simp
    then show ?thesis using g by simp
  qed
  have exact: "scans_resolve rnd chain draws start 0 (nat (target - k))"
    if "(\<forall>x. rnd x = x) \<and> (\<forall>j. 0 \<le> draws j \<and> draws j < 1)"
  proof -
    have r: "\<forall>x. rnd x = x" and d: "\<forall>j. 0 \<le> draws j \<and> draws j < 1" using that by blast+
    show ?thesis
      by (rule scans_resolve_exact [OF built_chain_targets [OF assms(4) dict]
                 exact_node_sums [OF assms(4) dict pos r] r d start])
  qed
  have yes: "\<exists>out. generate_text rnd chain target pick draws
                      = Inr (out, nat (max 0 (target - k)))
               \<and> int (length out) = max k target
               \<and> take (nat k) out = ngram start"
    if "scans_resolve rnd chain draws start 0 (nat (target - k))"
    using run that unfolding m by (simp only: if_True)
  have no: "\<exists>nd \<in> snd ` set chain. \<exists>j < nat (target - k).
               select_state rnd (next_states nd) (draws j) = None
               \<and> generate_text rnd chain target pick draws
                   = Inl (Exception [lit ''No next state found for '' @ [39] @ lit ''{0}'',
                                     ngram nd])"
    if "\<not> scans_resolve rnd chain draws start 0 (nat (target - k))"
    using run that by (simp only: if_False)
  from look len below yes no exact show ?thesis by blast
qed

theorem generate_text_keeps_first_ngram_witness:
  "(\<exists>out. generate_text (\<lambda>x. x)
            [([97, 98], \<lparr>ngram = [97, 98], next_states = [([98, 97], 1)]\<rparr>),
             ([98, 97], \<lparr>ngram = [98, 97], next_states = [([97, 98], 1)]\<rparr>)]
            5 1 (\<lambda>j. 1 / 2) = Inr (out, 3)
      \<and> length out = 5 \<and> take 2 out = [98, 97])
   \<and> generate_text (\<lambda>x. x)
            [([97, 98], \<lparr>ngram = [97, 98], next_states = [([98, 97], 1)]\<rparr>),
             ([98, 97], \<lparr>ngram = [98, 97], next_states = [([97, 98], 1)]\<rparr>)]
            (- 3) 1 (\<lambda>j. 1 / 2) = Inr ([98, 97], 0)
   \<and> generate_text (\<lambda>x. x)
            [([97, 98], \<lparr>ngram = [97, 98], next_states = [([98, 97], 1)]\<rparr>),
             ([98, 97], \<lparr>ngram = [98, 97], next_states = [([97, 98], 1)]\<rparr>)]
            4 1 (\<lambda>j. if j = 1 then 1 else 0)
        = Inl (Exception [lit ''No next state found for '' @ [39] @ lit ''{0}'', [97, 98]])"
  using generate_text_keeps_first_ngram [OF _ _ abab2_counts abab2_chain, of 1 5 "\<lambda>j. 1 / 2"]
    generate_text_keeps_first_ngram [OF _ _ abab2_counts abab2_chain, of 1 "- 3" "\<lambda>j. 1 / 2"]
    generate_text_keeps_first_ngram [OF _ _ abab2_counts abab2_chain, of 1 4
                                       "\<lambda>j. if j = 1 then 1 else 0"]
  by (simp add: generate_text_def walk.simps get_next_state_def py_index_def)

text \<open>
  Claim C3, as the specification states it, fails: the text \<open>abab\<close> with \<open>k = 2\<close> gives
  a chain from which \<open>generate_text\<close> with length 1 returns the two characters \<open>ab\<close>.
\<close>

theorem generate_text_length_counterexample:
  "compute_ngram_counts [97, 98, 97, 98] 2
     = Inr [([97, 98], [([97], 2)]), ([98, 97], [([98], 2)])]
   \<and> build_markov_chain (\<lambda>x. x) [([97, 98], [([97], 2)]), ([98, 97], [([98], 2)])]
     = Inr [([97, 98], \<lparr>ngram = [97, 98], next_states = [([98, 97], 1)]\<rparr>),
            ([98, 97], \<lparr>ngram = [98, 97], next_states = [([97, 98], 1)]\<rparr>)]
   \<and> generate_text (\<lambda>x. x)
         [([97, 98], \<lparr>ngram = [97, 98], next_states = [([98, 97], 1)]\<rparr>),
          ([98, 97], \<lparr>ngram = [98, 97], next_states = [([97, 98], 1)]\<rparr>)]
         1 0 (\<lambda>j. 0) = Inr ([97, 98], 0)
   \<and> length [97, 98 :: nat] \<noteq> 1"
  using abab2_counts abab2_chain by (simp add: generate_text_def walk.simps)

text \<open>
  Claim C3, amended. For a chain built from a table (a dict with at least one n-gram) whose
  n-grams all have the length \<open>k \<ge> 1\<close>, and every \<open>n \<ge> 1\<close>, \<open>generate_text\<close> starts
  at the node \<open>start\<close> that \<open>choice\<close> picks; its n-gram is a key of the chain and has
  \<open>k\<close> characters.
  \<^item> For \<open>n \<le> k\<close> the result is the whole n-gram of \<open>start\<close>, \<open>k\<close> characters, not
    cut to \<open>n\<close>; no draw is made and nothing is raised.
  \<^item> For \<open>n \<ge> k\<close>, when each of the \<open>n - k\<close> weighted scans of the run finds an edge,
    the result is a string of exactly \<open>n\<close> characters that begins with the n-gram of
    \<open>start\<close>, after \<open>n - k\<close> draws.
  \<^item> Otherwise \<open>n > k\<close>, the weighted scan of a node of the chain, with one of the
    first \<open>n - k\<close> draws, finds no edge, and the exception that \<open>get_next_state\<close>
    raises for that node is the outcome.
  \<^item> In exact arithmetic (nothing is rounded), when every n-gram of the table has a
    following letter and every count is at least 1, every scan with a draw in \<open>[0, 1)\<close>
    finds an edge.
\<close>

theorem generate_text_length:
  assumes "build_markov_chain rnd ngrams = Inr chain"
    and "distinct (map fst ngrams)"
    and "ngrams \<noteq> []"
    and "\<forall>e \<in> set ngrams. int (length (fst e)) = k"
    and "1 \<le> k" and "1 \<le> n"
  shows "\<exists>start. map_of chain (map fst chain ! (pick mod length chain)) = Some start
           \<and> ngram start \<in> fst ` set chain
           \<and> int (length (ngram start)) = k
           \<and> (n \<le> k \<longrightarrow> generate_text rnd chain n pick draws = Inr (ngram start, 0))
           \<and> (k \<le> n \<and> scans_resolve rnd chain draws start 0 (nat (n - k)) \<longrightarrow>
                (\<exists>out. generate_text rnd chain n pick draws = Inr (out, nat (n - k))
                   \<and> int (length out) = n
                   \<and> take (nat k) out = ngram start))
           \<and> (\<not> scans_resolve rnd chain draws start 0 (nat (n - k)) \<longrightarrow>
                k < n
                \<and> (\<exists>nd \<in> snd ` set chain. \<exists>j < nat (n - k).
                      select_state rnd (next_states nd) (draws j) = None
                      \<and> generate_text rnd chain n pick draws
                          = Inl (Exception [lit ''No next state found for '' @ [39] @ lit ''{0}'',
                                            ngram nd])))
           \<and> (positive_counts ngrams \<and> (\<forall>x. rnd x = x) \<and> (\<forall>j. 0 \<le> draws j \<and> draws j < 1) \<longrightarrow>
                scans_resolve rnd chain draws start 0 (nat (n - k)))"
proof -
  from generate_text_scans [OF assms(1-5), of pick draws n]
  obtain start where
    look: "map_of chain (map fst chain ! (pick mod length chain)) = Some start"
    and start: "start \<in> snd ` set chain"
    and key: "ngram start \<in> fst ` set chain"
    and len: "int (length (ngram start)) = k"
    and run: "if scans_resolve rnd chain draws start 0 (nat (n - k))
              then (\<exists>out. generate_text rnd chain n pick draws = Inr (out, nat (n - k))
                      \<and> int (length out) = max k n
                      \<and> take (nat k) out = ngram start)
              else (\<exists>nd \<in> snd ` set chain. \<exists>j < nat (n - k).
                      select_state rnd (next_states nd) (draws j) = None
                      \<and> generate_text rnd chain n pick draws
                          = Inl (Exception [lit ''No next state found for '' @ [39] @ lit ''{0}'',
                                            ngram nd]))"
    by blast
  have below: "generate_text rnd chain n pick draws = Inr (ngram start, 0)" if "n \<le> k"
  proof -
    have z: "nat (n - k) = 0" using that by simp
    from run obtain out where
      g: "generate_text rnd chain n pick draws = Inr (out, 0)"
      and l: "int (length out) = max k n"
      and p: "take (nat k) out = ngram start"
      unfolding z by auto
    have "length out = nat k" using l that by simp
    then have "out = ngram start" using p by simp
    then show ?thesis using g by simp
  qed
  have yes: "\<exists>out. generate_text rnd chain n pick draws = Inr (out, nat (n - k))
               \<and> int (length out) = n
               \<and> take (nat k) out = ngram start"
    if "k \<le> n \<and> scans_resolve rnd chain draws start 0 (nat (n - k))"
  proof -
    have "max k n = n" using that by simp
    then show ?thesis using run that by (simp only: if_True)
  qed
  have no: "k < n \<and> (\<exists>nd \<in> snd ` set chain. \<exists>j < nat (n - k).
               select_state rnd (next_states nd) (draws j) = None
               \<and> generate_text rnd chain n pick draws
                   = Inl (Exception [lit ''No next state found for '' @ [39] @ lit ''{0}'',
                                     ngram nd]))"
    if "\<not> scans_resolve rnd chain draws start 0 (nat (n - k))"
  proof -
    have "nat (n - k) \<noteq> 0" using that by (cases "nat (n - k)") auto
    then have "k < n" by simp
    then show ?thesis using run that by (simp only: if_False simp_thms)
  qed
  have exact: "scans_resolve rnd chain draws start 0 (nat (n - k))"
    if "positive_counts ngrams \<and> (\<forall>x. rnd x = x) \<and> (\<forall>j. 0 \<le> draws j \<and> draws j < 1)"
  proof -
    have pos: "positive_counts ngrams" and r: "\<forall>x. rnd x = x"
      and d: "\<forall>j. 0 \<le> draws j \<and> draws j < 1" using that by blast+
    show ?thesis
      by (rule scans_resolve_exact [OF built_chain_targets [OF assms(1,2)]
                 exact_node_sums [OF assms(1,2) pos r] r d start])
  qed
  from look key len below yes no exact show ?thesis by blast
qed

theorem generate_text_length_witness:
  "(\<exists>out. generate_text (\<lambda>x. x)
            [([97, 98], \<lparr>ngram = [97, 98], next_states = [([98, 97], 1)]\<rparr>),
             ([98, 97], \<lparr>ngram = [98, 97], next_states = [([97, 98], 1)]\<rparr>)]
            3 0 (\<lambda>j. 1 / 2) = Inr (out, 1)
      \<and> length out = 3 \<and> take 2 out = [97, 98])
   \<and> generate_text (\<lambda>x. x)
            [([97, 98], \<lparr>ngram = [97, 98], next_states = [([98, 97], 1)]\<rparr>),
             ([98, 97], \<lparr>ngram = [98, 97], next_states = [([97, 98], 1)]\<rparr>)]
            1 0 (\<lambda>j. 1 / 2) = Inr ([97, 98], 0)
   \<and> generate_text (\<lambda>x. x)
            [([97, 98], \<lparr>ngram = [97, 98], next_states = [([98, 97], 1)]\<rparr>),
             ([98, 97], \<lparr>ngram = [98, 97], next_states = [([97, 98], 1)]\<rparr>)]
            3 0 (\<lambda>j. 1)
        = Inl (Exception [lit ''No next state found for '' @ [39] @ lit ''{0}'', [97, 98]])"
  using generate_text_length [OF abab2_chain, where k = 2 and n = 3 and pick = 0
                                and draws = "\<lambda>j. 1 / 2"]
    generate_text_length [OF abab2_chain, where k = 2 and n = 1 and pick = 0
                            and draws = "\<lambda>j. 1 / 2"]
    generate_text_length [OF abab2_chain, where k = 2 and n = 3 and pick = 0
                            and draws = "\<lambda>j. 1"]
  by (simp add: generate_text_def walk.simps get_next_state_def py_index_def)

text \<open>
  Claim C9. The text \<open>abab\<close> with \<open>k = 1\<close> gives the table with exactly the n-grams
  \<open>a\<close> and \<open>b\<close>, \<open>a\<close> followed by \<open>b\<close> only, with count 2, and \<open>b\<close> by \<open>a\<close> only,
  with count 2. In the chain both edges have the probability \<open>1.0\<close> (the floats 1 and 2
  are exact), and \<open>generate_text\<close> with length 6, when \<open>choice\<close> picks the node \<open>a\<close>,
  returns \<open>ababab\<close> after 5 draws, whatever numbers in \<open>[0, 1)\<close> are drawn.
\<close>

theorem abab_generates_ababab:
  assumes "rnd 1 = 1" and "rnd 2 = 2"
    and "\<forall>j. 0 \<le> draws j \<and> draws j < 1"
    and "[[97], [98]] ! (pick mod 2) = [97 :: nat]"
  shows "compute_ngram_counts [97, 98, 97, 98] 1
           = Inr [([97], [([98], 2)]), ([98], [([97], 2)])]
         \<and> build_markov_chain rnd [([97], [([98], 2)]), ([98], [([97], 2)])]
           = Inr [([97], \<lparr>ngram = [97], next_states = [([98], 1)]\<rparr>),
                  ([98], \<lparr>ngram = [98], next_states = [([97], 1)]\<rparr>)]
         \<and> generate_text rnd
               [([97], \<lparr>ngram = [97], next_states = [([98], 1)]\<rparr>),
                ([98], \<lparr>ngram = [98], next_states = [([97], 1)]\<rparr>)]
               6 pick draws
           = Inr ([97, 98, 97, 98, 97, 98], 5)"
proof (intro conjI)
  show "compute_ngram_counts [97, 98, 97, 98] 1 = Inr [([97], [([98], 2)]), ([98], [([97], 2)])]"
    by (rule abab_counts)
  show "build_markov_chain rnd [([97], [([98], 2)]), ([98], [([97], 2)])]
           = Inr [([97], \<lparr>ngram = [97], next_states = [([98], 1)]\<rparr>),
                  ([98], \<lparr>ngram = [98], next_states = [([97], 1)]\<rparr>)]"
    using assms(1,2)
    by (simp add: build_markov_chain_def create_nodes_def new_node_def add_next_state_def Let_def)
  have d: "draws j < 1" for j using assms(3) by simp
  show "generate_text rnd
               [([97], \<lparr>ngram = [97], next_states = [([98], 1)]\<rparr>),
                ([98], \<lparr>ngram = [98], next_states = [([97], 1)]\<rparr>)]
               6 pick draws
           = Inr ([97, 98, 97, 98, 97, 98], 5)"
  proof -
    have start: "map fst [([97 :: nat], \<lparr>ngram = [97], next_states = [([98 :: nat], 1 :: real)]\<rparr>),
                          ([98], \<lparr>ngram = [98], next_states = [([97], 1)]\<rparr>)]
                   ! (pick mod length (map fst
                         [([97 :: nat], \<lparr>ngram = [97], next_states = [([98 :: nat], 1 :: real)]\<rparr>),
                          ([98], \<lparr>ngram = [98], next_states = [([97], 1)]\<rparr>)]))
                 = [97]"
      using assms(4) by (simp add: numeral_2_eq_2)
    show ?thesis
      unfolding generate_text_def Let_def start
      by (simp add: walk.simps get_next_state_def py_index_def d)
  qed
qed

theorem abab_generates_ababab_witness:
  "generate_text (\<lambda>x. x)
     [([97], \<lparr>ngram = [97], next_states = [([98], 1)]\<rparr>),
      ([98], \<lparr>ngram = [98], next_states = [([97], 1)]\<rparr>)]
     6 0 (\<lambda>j. 1 / 2)
   = Inr ([97, 98, 97, 98, 97, 98], 5)"
  using abab_generates_ababab [of "\<lambda>x. x" "\<lambda>j. 1 / 2" 0] by simp

section \<open>Properties of the model file\<close>

lemma str_nat_digits: "\<forall>c \<in> set (str_nat n). 48 \<le> c \<and> c \<le> 57"
proof (induction n rule: str_nat.induct)
  case (1 n)
  show ?case
  proof (cases "n < 10")
    case True
    then show ?thesis by (simp add: str_nat.simps [of n])
  next
    case False
    have "n mod 10 < 10" by simp
    then have "48 + n mod 10 \<le> 57" by linarith
    then show ?thesis using False 1 by (simp add: str_nat.simps [of n])
  qed
qed

lemma str_nat_nonempty: "str_nat n \<noteq> []"
  by (simp add: str_nat.simps [of n])

lemma str_int_chars: "\<forall>c \<in> set (str_int i). digit_or_minus c"
  using str_nat_digits by (auto simp: str_int_def digit_or_minus_def)

lemma str_int_nonempty: "str_int i \<noteq> []"
  by (simp add: str_int_def str_nat_nonempty)

lemma digit_or_minus_plain:
  "digit_or_minus c \<Longrightarrow> \<not> py_isspace c \<and> c \<noteq> 10 \<and> c \<noteq> 13"
  by (auto simp: digit_or_minus_def py_isspace_def)

lemma token_str_int: "token (str_int i)"
  using str_int_chars [of i] by (auto simp: token_def str_int_nonempty dest: digit_or_minus_plain)

lemma parse_str_nat:
  assumes "ascii_digits dec"
  shows "parse_digits dec need (str_nat n @ rest) 0 = parse_digits dec False rest n"
proof (induction n arbitrary: need rest rule: str_nat.induct)
  case (1 n)
  show ?case
  proof (cases "n < 10")
    case True
    then have "dec (48 + n) = Some n" using assms by (simp add: ascii_digits_def)
    then show ?thesis using True by (simp add: str_nat.simps [of n])
  next
    case False
    have "n mod 10 < 10" by simp
    then have d: "dec (48 + n mod 10) = Some (n mod 10)"
      using assms unfolding ascii_digits_def by blast
    have "parse_digits dec need (str_nat n @ rest) 0
            = parse_digits dec need (str_nat (n div 10) @ ((48 + n mod 10) # rest)) 0"
      using False by (simp add: str_nat.simps [of n])
    also have "\<dots> = parse_digits dec False ((48 + n mod 10) # rest) (n div 10)"
      using False by (intro 1) simp
    also have "\<dots> = parse_digits dec False rest (10 * (n div 10) + n mod 10)"
    proof -
      have "48 + n mod 10 \<noteq> 95" using \<open>n mod 10 < 10\<close> by linarith
      then show ?thesis using d by (simp del: mod_less_divisor)
    qed
    finally show ?thesis by simp
  qed
qed

lemma py_int_str_int:
  assumes "ascii_digits dec"
  shows "py_int dec (str_int i) = Inr i"
proof (cases "i < 0")
  case True
  have "parse_digits dec True (str_nat (nat (- i)) @ []) 0 = Some (nat (- i))"
    unfolding parse_str_nat [OF assms] by simp
  then show ?thesis using True by (simp add: py_int_def str_int_def)
next
  case False
  obtain c cs where s: "str_nat (nat i) = c # cs"
    using str_nat_nonempty [of "nat i"] by (cases "str_nat (nat i)") auto
  have "48 \<le> c" using str_nat_digits [of "nat i"] s by auto
  then have c: "c \<noteq> 45" "c \<noteq> 43" by auto
  have "parse_digits dec True (str_nat (nat i) @ []) 0 = Some (nat i)"
    unfolding parse_str_nat [OF assms] by simp
  then have "parse_digits dec True (c # cs) 0 = Some (nat i)" using s by simp
  then show ?thesis using False c s by (simp add: py_int_def str_int_def)
qed

lemma split_from_run:
  assumes "\<forall>c \<in> set t. \<not> py_isspace c" and "py_isspace s"
  shows "split_from cur (t @ s # rest)
           = (if cur @ t = [] then split_from [] rest else (cur @ t) # split_from [] rest)"
  using assms(1)
proof (induction t arbitrary: cur)
  case Nil
  then show ?case using assms(2) by simp
next
  case (Cons c t)
  then show ?case by simp
qed

lemma split_from_end:
  assumes "\<forall>c \<in> set t. \<not> py_isspace c"
  shows "split_from cur t = (if cur @ t = [] then [] else [cur @ t])"
  using assms by (induction t arbitrary: cur) simp_all

lemma isspace_32: "py_isspace 32" and isspace_10: "py_isspace 10"
  by (simp_all add: py_isspace_def)

lemma py_split_token_space:
  "token t \<Longrightarrow> py_split (t @ 32 # rest) = t # py_split rest"
  using split_from_run [of t 32 "[]" rest] by (simp add: py_split_def token_def isspace_32)

lemma py_split_space: "py_split (32 # rest) = py_split rest"
  by (simp add: py_split_def isspace_32)

lemma py_split_newline: "py_split [10] = []"
  by (simp add: py_split_def isspace_10)

lemma py_split_token: "token t \<Longrightarrow> py_split t = [t]"
  using split_from_end [of t "[]"] by (simp add: py_split_def token_def)

lemma py_split_join_space_then:
  assumes "\<forall>t \<in> set ts. token t"
  shows "py_split (join_space ts @ 32 # rest) = ts @ py_split rest"
  using assms
proof (induction ts rule: join_space.induct)
  case 1
  then show ?case by (simp add: py_split_space)
next
  case (2 t)
  then show ?case by (simp add: py_split_token_space)
next
  case (3 t u us)
  then show ?case by (simp add: py_split_token_space)
qed

lemma py_split_join_space:
  assumes "\<forall>t \<in> set ts. token t"
  shows "py_split (join_space ts) = ts"
  using assms
proof (induction ts rule: join_space.induct)
  case 1
  then show ?case by (simp add: py_split_def)
next
  case (2 t)
  then show ?case by (simp add: py_split_token)
next
  case (3 t u us)
  then show ?case by (simp add: py_split_token_space)
qed

lemma chars_from_decimal_codes:
  assumes "ascii_digits dec" and "\<forall>c \<in> set g. c \<le> 1114111"
  shows "chars_from_decimal dec (map (\<lambda>letter. str_int (int letter)) g) = Inr g"
  using assms(2)
  by (induction g) (simp_all add: py_int_str_int [OF assms(1)] py_chr_def)

lemma string_from_to_decimal:
  assumes "ascii_digits dec" and "\<forall>c \<in> set g. c \<le> 1114111"
  shows "string_from_decimal dec (string_to_decimal g) = Inr g"
proof -
  have "py_split (join_space (map (\<lambda>letter. str_int (int letter)) g))
          = map (\<lambda>letter. str_int (int letter)) g"
    by (rule py_split_join_space) (simp add: token_str_int)
  then show ?thesis
    using chars_from_decimal_codes [OF assms]
    by (simp add: string_from_decimal_def string_to_decimal_def)
qed

lemma string_to_decimal_single: "string_to_decimal [c] = str_int (int c)"
  by (simp add: string_to_decimal_def)

lemma join_space_plain:
  "\<forall>t \<in> set ts. \<forall>c \<in> set t. plain c \<Longrightarrow> \<forall>c \<in> set (join_space ts). plain c"
  by (induction ts rule: join_space.induct) (auto simp: plain_def)

lemma string_to_decimal_plain: "\<forall>c \<in> set (string_to_decimal g). plain c"
  unfolding string_to_decimal_def
  by (rule join_space_plain) (use str_int_chars in \<open>auto simp: plain_def\<close>)

lemma str_int_plain: "\<forall>c \<in> set (str_int i). plain c"
  using str_int_chars by (auto simp: plain_def)

lemma plain_facts: "plain c \<Longrightarrow> c \<noteq> 10 \<and> c \<noteq> 13"
  by (auto simp: plain_def digit_or_minus_def)

lemma readline_line:
  "\<forall>c \<in> set body. c \<noteq> 10 \<Longrightarrow> readline (body @ 10 # rest) = (body @ [10], rest)"
  by (induction body) simp_all

lemma universal_newlines_id: "\<forall>c \<in> set s. c \<noteq> 13 \<Longrightarrow> universal_newlines s = s"
  by (induction s rule: universal_newlines.induct) simp_all

lemma concat_pairs_nth:
  assumes "j < length xs"
  shows "concat (map (\<lambda>x. [a x, b x]) xs) ! (2 * j) = a (xs ! j)"
    and "concat (map (\<lambda>x. [a x, b x]) xs) ! (2 * j + 1) = b (xs ! j)"
  using assms
proof (induction xs arbitrary: j)
  case Nil
  { case 1 then show ?case by simp }
  { case 2 then show ?case by simp }
next
  case (Cons x xs)
  { case 1 then show ?case using Cons.IH(1) [of "j - 1"] by (cases j) simp_all }
  { case 2 then show ?case using Cons.IH(2) [of "j - 1"] by (cases j) simp_all }
qed

lemma concat_pairs_length: "length (concat (map (\<lambda>x. [a x, b x]) xs)) = 2 * length xs"
  by (induction xs) simp_all

lemma pair_tokens_fun:
  "pair_tokens = (\<lambda>item. [string_to_decimal (fst item), str_int (snd item)])"
  by (rule ext) (simp add: pair_tokens_def)

lemma py_index_nat: "i < length xs \<Longrightarrow> py_index xs (int i) = Inr (xs ! i)"
  by (simp add: py_index_def)

lemma read_letters_written:
  assumes dec: "ascii_digits dec"
    and info: "info = gtoks @ mtok # concat (map pair_tokens letters)"
    and k: "length gtoks = nat k" "0 \<le> k"
    and d: "distinct (map fst letters)"
    and single: "\<forall>item \<in> set letters. length (fst item) = 1 \<and> (\<forall>c \<in> set (fst item). c \<le> 1114111)"
    and j0: "j0 \<le> length letters"
  shows "read_letters dec info k [j0 ..< length letters] (take j0 letters) = Inr letters"
  using j0
proof (induction "length letters - j0" arbitrary: j0)
  case 0
  then show ?case by simp
next
  case (Suc m)
  then have j: "j0 < length letters" by simp
  define item where "item = letters ! j0"
  have item_in: "item \<in> set letters" using j by (simp add: item_def)
  have pos: "nat k + 1 + 2 * j0 + 1 < length info"
    using j by (simp add: info k(1) pair_tokens_fun concat_pairs_length)
  have i1: "1 + k + int j0 * 2 = int (nat k + 1 + 2 * j0)" using k(2) by simp
  have i2: "1 + k + (int j0 * 2 + 1) = int (nat k + 1 + 2 * j0 + 1)" using k(2) by simp
  have n1: "info ! (nat k + 1 + 2 * j0) = string_to_decimal (fst item)"
    using concat_pairs_nth(1) [OF j, of "\<lambda>x. string_to_decimal (fst x)" "\<lambda>x. str_int (snd x)"]
    by (simp add: info nth_append k(1) pair_tokens_fun item_def)
  have n2: "info ! (nat k + 1 + 2 * j0 + 1) = str_int (snd item)"
    using concat_pairs_nth(2) [OF j, of "\<lambda>x. string_to_decimal (fst x)" "\<lambda>x. str_int (snd x)"]
    by (simp add: info nth_append k(1) pair_tokens_fun item_def)
  have "nat k + 1 + 2 * j0 < length info" using pos by simp
  then have "py_index info (int (nat k + 1 + 2 * j0)) = Inr (info ! (nat k + 1 + 2 * j0))"
    by (rule py_index_nat)
  then have f1: "py_index info (1 + k + int j0 * 2) = Inr (string_to_decimal (fst item))"
    by (simp only: i1 n1)
  have "py_index info (int (nat k + 1 + 2 * j0 + 1)) = Inr (info ! (nat k + 1 + 2 * j0 + 1))"
    using pos by (rule py_index_nat)
  then have f2: "py_index info (1 + k + (int j0 * 2 + 1)) = Inr (str_int (snd item))"
    by (simp only: i2 n2)
  have l: "string_from_decimal dec (string_to_decimal (fst item)) = Inr (fst item)"
    using single item_in by (intro string_from_to_decimal [OF dec]) auto
  have c: "py_int dec (str_int (snd item)) = Inr (snd item)"
    by (rule py_int_str_int [OF dec])
  have "fst item \<notin> fst ` set (take j0 letters)"
  proof
    assume "fst item \<in> fst ` set (take j0 letters)"
    then obtain i where "i < j0" and "fst (letters ! i) = fst item"
      using j by (auto simp: in_set_conv_nth)
    then show False using d j by (simp add: item_def distinct_conv_nth)
  qed
  then have u: "AList.update (fst item) (snd item) (take j0 letters) = take (Suc j0) letters"
    using j by (simp add: update_new_key take_Suc_conv_app_nth item_def)
  have "read_letters dec info k [j0 ..< length letters] (take j0 letters)
          = read_letters dec info k [Suc j0 ..< length letters] (take (Suc j0) letters)"
    using j f1 f2 l c u by (simp add: upt_conv_Cons)
  also have "\<dots> = Inr letters"
    using Suc.hyps(2) j by (intro Suc.hyps(1)) simp_all
  finally show ?case .
qed

lemma py_split_pairs:
  assumes "\<forall>item \<in> set letters. length (fst item) = 1"
  shows "py_split (concat (map (\<lambda>item. string_to_decimal (fst item) @ 32 # str_int (snd item) @ [32])
                              letters) @ [10])
           = concat (map pair_tokens letters)"
  using assms
proof (induction letters)
  case Nil
  then show ?case by (simp add: py_split_newline)
next
  case (Cons item letters)
  obtain c where c: "fst item = [c]"
    using Cons.prems by (cases "fst item") auto
  have "token (string_to_decimal (fst item))"
    by (simp add: c string_to_decimal_single token_str_int)
  then show ?case
    using Cons by (simp add: py_split_token_space token_str_int pair_tokens_def)
qed

lemma py_split_write_ngram:
  assumes "\<forall>item \<in> set (snd entry). length (fst item) = 1"
  shows "py_split (write_ngram entry) = entry_tokens entry"
proof -
  have "py_split (write_ngram entry)
          = map (\<lambda>letter. str_int (int letter)) (fst entry)
            @ py_split (str_int (int (length (snd entry))) @ 32 #
                (concat (map (\<lambda>item. string_to_decimal (fst item) @ [32] @ str_int (snd item) @ [32])
                          (snd entry)) @ [10]))"
    unfolding write_ngram_def string_to_decimal_def [of "fst entry"]
    using py_split_join_space_then [of "map (\<lambda>letter. str_int (int letter)) (fst entry)"]
    by (simp add: token_str_int)
  then show ?thesis
    by (simp add: py_split_token_space token_str_int py_split_pairs [OF assms] entry_tokens_def)
qed

lemma ascii_digits_ascii_dec: "ascii_digits ascii_dec"
  by (simp add: ascii_digits_def ascii_dec_def)

lemma read_ngram_written:
  assumes dec: "ascii_digits dec"
    and len: "int (length (fst entry)) = k"
    and chars: "\<forall>c \<in> set (fst entry). c \<le> 1114111"
    and d: "distinct (map fst (snd entry))"
    and single: "\<forall>item \<in> set (snd entry).
                   length (fst item) = 1 \<and> (\<forall>c \<in> set (fst item). c \<le> 1114111)"
  shows "read_ngram dec k (write_ngram entry) = Inr entry"
proof -
  define gtoks where "gtoks = map (\<lambda>letter. str_int (int letter)) (fst entry)"
  define mtok where "mtok = str_int (int (length (snd entry)))"
  define info where "info = py_split (write_ngram entry)"
  have info: "info = gtoks @ mtok # concat (map pair_tokens (snd entry))"
    unfolding info_def gtoks_def mtok_def
    using py_split_write_ngram [of entry] single by (simp add: entry_tokens_def)
  have k0: "0 \<le> k" using len by simp
  have lg: "length gtoks = nat k" using len by (simp add: gtoks_def)
  have "py_slice info (int 0) (int (nat k)) = take (nat k - 0) (drop 0 info)"
    by (rule py_slice_nat) (simp_all add: info lg)
  then have sl: "py_slice info 0 k = gtoks" using k0 by (simp add: info lg)
  have g: "string_from_decimal dec (join_space gtoks) = Inr (fst entry)"
    using string_from_to_decimal [OF dec chars] by (simp add: string_to_decimal_def gtoks_def)
  have "py_index info (int (nat k)) = Inr (info ! nat k)"
    by (rule py_index_nat) (simp add: info lg)
  then have m: "py_index info k = Inr mtok" using k0 by (simp add: info lg nth_append)
  have mi: "py_int dec mtok = Inr (int (length (snd entry)))"
    unfolding mtok_def by (rule py_int_str_int [OF dec])
  have rl: "read_letters dec info k [0 ..< length (snd entry)] (take 0 (snd entry)) = Inr (snd entry)"
    by (rule read_letters_written [OF dec info lg k0 d single]) simp
  show ?thesis
    unfolding read_ngram_def Let_def info_def [symmetric] sl
    using g m mi rl by simp
qed

lemma plain_32: "plain 32"
  by (simp add: plain_def)

lemma pairs_plain:
  "\<forall>c \<in> set (concat (map (\<lambda>item. string_to_decimal (fst item) @ [32] @ str_int (snd item) @ [32])
                           letters)). plain c"
proof (induction letters)
  case Nil
  then show ?case by simp
next
  case (Cons item letters)
  have "\<forall>c \<in> set (string_to_decimal (fst item) @ [32] @ str_int (snd item) @ [32]). plain c"
    using string_to_decimal_plain [of "fst item"] str_int_plain [of "snd item"] plain_32
    by auto
  then show ?case using Cons by auto
qed

lemma write_ngram_body:
  "\<exists>body. write_ngram entry = body @ [10] \<and> (\<forall>c \<in> set body. plain c)"
proof -
  define body where
    "body = string_to_decimal (fst entry) @ [32] @ str_int (int (length (snd entry))) @ [32]
            @ concat (map (\<lambda>item. string_to_decimal (fst item) @ [32] @ str_int (snd item) @ [32])
                          (snd entry))"
  have "\<forall>c \<in> set body. plain c"
    unfolding body_def
    using string_to_decimal_plain [of "fst entry"] str_int_plain [of "int (length (snd entry))"]
      plain_32 pairs_plain [of "snd entry"]
    by auto
  moreover have "write_ngram entry = body @ [10]"
    by (simp add: write_ngram_def body_def)
  ultimately show ?thesis by blast
qed

lemma readline_write_ngram: "readline (write_ngram entry @ rest) = (write_ngram entry, rest)"
proof -
  obtain body where b: "write_ngram entry = body @ [10]" and p: "\<forall>c \<in> set body. plain c"
    using write_ngram_body by blast
  have "\<forall>c \<in> set body. c \<noteq> 10" using p plain_facts by blast
  then show ?thesis unfolding b using readline_line [of body rest] by simp
qed

lemma read_ngrams_written:
  assumes dec: "ascii_digits dec"
    and wf: "\<forall>e \<in> set es. int (length (fst e)) = k \<and> (\<forall>c \<in> set (fst e). c \<le> 1114111)
                 \<and> distinct (map fst (snd e))
                 \<and> (\<forall>item \<in> set (snd e).
                        length (fst item) = 1 \<and> (\<forall>c \<in> set (fst item). c \<le> 1114111))"
    and d: "distinct (map fst es)"
    and fresh: "fst ` set es \<inter> fst ` set acc = {}"
  shows "read_ngrams dec k (length es) (concat (map write_ngram es)) acc = Inr (acc @ es)"
  using wf d fresh
proof (induction es arbitrary: acc)
  case Nil
  then show ?case by simp
next
  case (Cons e es)
  have rd: "readline (concat (map write_ngram (e # es))) = (write_ngram e, concat (map write_ngram es))"
    using readline_write_ngram [of e "concat (map write_ngram es)"] by simp
  have e: "read_ngram dec k (write_ngram e) = Inr e"
    using Cons.prems(1) by (intro read_ngram_written [OF dec]) simp_all
  have "fst e \<notin> fst ` set acc" using Cons.prems(3) by auto
  then have u: "AList.update (fst e) (snd e) acc = acc @ [e]"
    by (simp add: update_new_key)
  have fresh': "fst ` set es \<inter> fst ` set (acc @ [e]) = {}"
    using Cons.prems(2,3) by auto
  have "read_ngrams dec k (length (e # es)) (concat (map write_ngram (e # es))) acc
          = read_ngrams dec k (length es) (concat (map write_ngram es)) (acc @ [e])"
    using e u by (simp add: rd del: concat.simps list.map)
  also have "\<dots> = Inr ((acc @ [e]) @ es)"
    using Cons.prems(1,2) fresh' by (intro Cons.IH) simp_all
  finally show ?case by simp
qed

text \<open>
  Claim C1. For a count table of the data model (a dict of dicts whose n-grams all have
  the length \<open>k\<close>, whose letters are single characters, and whose characters are code
  points, up to \<open>U+10FFFF\<close>), reading the file that \<open>write_ngram_counts_to_file\<close> writes
  gives back the same table, with its order, and the same \<open>k\<close>. No character is
  special: code point 0, whitespace and \<open>U+10FFFF\<close> come back as they were. The only
  assumption on the digit table of \<open>int\<close> is that the ten ASCII digits have their values.
\<close>

theorem read_of_written_counts:
  assumes "ascii_digits dec" and "model_table k ngrams"
  shows "read_ngram_counts_from_file dec (write_ngram_counts_to_file ngrams k) = Inr (ngrams, k)"
proof -
  define header where "header = str_int k @ 32 # str_int (int (length ngrams))"
  define lines where "lines = concat (map write_ngram ngrams)"
  have content: "write_ngram_counts_to_file ngrams k = header @ 10 # lines"
    by (simp add: write_ngram_counts_to_file_def header_def lines_def)
  have hp: "\<forall>c \<in> set header. plain c"
    using str_int_plain by (auto simp: header_def plain_def)
  have lp: "\<forall>c \<in> set lines. plain c \<or> c = 10"
  proof -
    have "\<forall>c \<in> set (write_ngram e). plain c \<or> c = 10" for e
      using write_ngram_body [of e] by auto
    then show ?thesis by (auto simp: lines_def)
  qed
  have "\<forall>c \<in> set (header @ 10 # lines). c \<noteq> 13"
  proof
    fix c assume "c \<in> set (header @ 10 # lines)"
    then have "plain c \<or> c = 10" using hp lp by auto
    then show "c \<noteq> 13" using plain_facts [of c] by auto
  qed
  then have un: "universal_newlines (header @ 10 # lines) = header @ 10 # lines"
    by (rule universal_newlines_id)
  have "\<forall>c \<in> set header. c \<noteq> 10" using hp plain_facts by blast
  then have rd: "readline (header @ 10 # lines) = (header @ [10], lines)"
    by (rule readline_line)
  have "py_split (header @ [10]) = [str_int k, str_int (int (length ngrams))]"
    using py_split_token_space [OF token_str_int, of k "str_int (int (length ngrams)) @ [10]"]
      split_from_run [of "str_int (int (length ngrams))" 10 "[]" "[]"] token_str_int [of "int (length ngrams)"]
    by (simp add: header_def py_split_def token_def isspace_10)
  then have ints: "ints_of dec (py_split (header @ [10])) = Inr [k, int (length ngrams)]"
    by (simp add: py_int_str_int [OF assms(1)])
  have "read_ngrams dec k (length ngrams) lines [] = Inr ([] @ ngrams)"
    unfolding lines_def
    using assms(2) by (intro read_ngrams_written [OF assms(1)]) (simp_all add: model_table_def)
  then show ?thesis
    unfolding read_ngram_counts_from_file_def Let_def content un rd
    using ints by simp
qed

theorem read_of_written_counts_witness:
  "read_ngram_counts_from_file ascii_dec
     (write_ngram_counts_to_file
        [([0, 32], [([1114111], 1), ([10], 7)]), ([32, 1114111], [([0], 3)])] 2)
   = Inr ([([0, 32], [([1114111], 1), ([10], 7)]), ([32, 1114111], [([0], 3)])], 2)"
  using read_of_written_counts [OF ascii_digits_ascii_dec,
          of 2 "[([0, 32], [([1114111], 1), ([10], 7)]), ([32, 1114111], [([0], 3)])]"]
  by (simp add: model_table_def)

lemma lines_from_readline:
  "s \<noteq> [] \<Longrightarrow>
   lines_from cur s = (cur @ fst (readline s)) # lines_from [] (snd (readline s))"
proof (induction s arbitrary: cur)
  case Nil
  then show ?case by simp
next
  case (Cons c cs)
  show ?case
  proof (cases "c = 10")
    case True
    then show ?thesis by simp
  next
    case False
    show ?thesis
    proof (cases "cs = []")
      case True
      then show ?thesis using False by simp
    next
      case nonempty: False
      then show ?thesis using False Cons.IH [OF nonempty, of "cur @ [c]"]
        by (simp add: case_prod_beta)
    qed
  qed
qed

lemma file_lines_readline:
  "s \<noteq> [] \<Longrightarrow> file_lines s = fst (readline s) # file_lines (snd (readline s))"
  using lines_from_readline [of s "[]"] by (simp add: file_lines_def)

lemma read_ngram_no_fields:
  assumes "py_split line = []"
  shows "read_ngram dec k line = Inl IndexError"
  using assms
  by (simp add: read_ngram_def py_slice_def string_from_decimal_def py_split_def py_index_def)

lemma read_ngrams_too_few:
  "length (file_lines file) < n \<Longrightarrow> \<exists>e. read_ngrams dec k n file acc = Inl e"
proof (induction n arbitrary: "file" acc)
  case 0
  then show ?case by simp
next
  case (Suc n)
  show ?case
  proof (cases "read_ngram dec k (fst (readline file))")
    case (Inl e)
    then show ?thesis by simp
  next
    case (Inr entry)
    have "file \<noteq> []"
    proof
      assume "file = []"
      then have "read_ngram dec k (fst (readline file)) = Inl IndexError"
        by (intro read_ngram_no_fields) (simp add: py_split_def)
      then show False using Inr by simp
    qed
    then have "file_lines file = fst (readline file) # file_lines (snd (readline file))"
      by (rule file_lines_readline)
    then have "length (file_lines (snd (readline file))) < n" using Suc.prems by simp
    then show ?thesis using Suc.IH Inr by simp
  qed
qed

lemma ints_of_error: "ints_of dec ts = Inl e \<Longrightarrow> e = ValueError"
  by (induction ts arbitrary: e) (auto simp: py_int_def split: sum.splits list.splits if_splits option.splits)

lemma header_not_two_fields:
  assumes "\<forall>k N. ints_of dec (py_split (fst (readline (universal_newlines content)))) \<noteq> Inr [k, N]"
  shows "read_ngram_counts_from_file dec content = Inl ValueError"
proof (cases "ints_of dec (py_split (fst (readline (universal_newlines content))))")
  case (Inl e)
  then show ?thesis using ints_of_error [OF Inl] by (simp add: read_ngram_counts_from_file_def)
next
  case (Inr xs)
  then have "\<forall>k N. xs \<noteq> [k, N]" using assms by simp
  then show ?thesis using Inr
    by (auto simp: read_ngram_counts_from_file_def split: list.splits)
qed

lemma declared_more_than_present:
  assumes "ints_of dec (py_split (fst (readline (universal_newlines content)))) = Inr [k, N]"
    and "int (length (file_lines (snd (readline (universal_newlines content))))) < N"
  shows "\<exists>e. read_ngram_counts_from_file dec content = Inl e"
proof -
  have "length (file_lines (snd (readline (universal_newlines content)))) < nat N"
    using assms(2) by simp
  from read_ngrams_too_few [OF this, of dec k "[]"] show ?thesis
    using assms(1) by (auto simp: read_ngram_counts_from_file_def)
qed

lemma split_from_tokens:
  "\<forall>c \<in> set cur. \<not> py_isspace c \<Longrightarrow> \<forall>t \<in> set (split_from cur s). token t"
proof (induction s arbitrary: cur)
  case Nil
  then show ?case by (simp add: token_def)
next
  case (Cons a s)
  show ?case
  proof (cases "py_isspace a")
    case True
    have "\<forall>t \<in> set (split_from [] s). token t" by (rule Cons.IH) simp
    moreover have "cur \<noteq> [] \<Longrightarrow> token cur" using Cons.prems by (simp add: token_def)
    ultimately show ?thesis using True by simp
  next
    case False
    have "\<forall>t \<in> set (split_from (cur @ [a]) s). token t"
      using Cons.prems False by (intro Cons.IH) simp
    then show ?thesis using False by simp
  qed
qed

lemma py_split_tokens: "\<forall>t \<in> set (py_split s). token t"
  using split_from_tokens [of "[]" s] by (simp add: py_split_def)

lemma chars_from_decimal_bad:
  "t \<in> set ts \<Longrightarrow> py_int dec t = Inl e \<Longrightarrow> \<exists>e'. chars_from_decimal dec ts = Inl e'"
  by (induction ts) (auto split: sum.splits)

lemma py_slice_take: "0 \<le> k \<Longrightarrow> py_slice xs 0 k = take (nat k) xs"
  by (simp add: py_slice_def clamp_index_def min_def Let_def)

lemma read_letters_step:
  "(\<exists>e. read_letters dec info k (j # js) acc = Inl e)
   \<or> (\<exists>acc'. read_letters dec info k (j # js) acc = read_letters dec info k js acc')"
  by (auto split: sum.splits)

lemma read_letters_bad_field:
  assumes "0 \<le> k" and "\<forall>t \<in> set info. token t"
    and "i < length info" and "py_int dec (info ! i) = Inl ValueError"
    and "m \<in> set js" and "i = nat k + 1 + 2 * m \<or> i = nat k + 2 + 2 * m"
  shows "\<exists>e. read_letters dec info k js acc = Inl e"
  using assms(5)
proof (induction js arbitrary: acc)
  case Nil
  then show ?case by simp
next
  case (Cons j js)
  show ?case
  proof (cases "j = m")
    case False
    then have "m \<in> set js" using Cons.prems by simp
    then show ?thesis using Cons.IH read_letters_step [of dec info k j js acc] by metis
  next
    case True
    have tok: "token (info ! i)" using assms(2,3) by simp
    have bad_letter: "\<exists>e. string_from_decimal dec (info ! i) = Inl e"
      using assms(4) by (simp add: string_from_decimal_def py_split_token [OF tok])
    have idx: "py_index info (int i) = Inr (info ! i)"
      using assms(3) by (rule py_index_nat)
    from assms(6) show ?thesis
    proof
      assume i: "i = nat k + 1 + 2 * m"
      then have "1 + k + int j * 2 = int i" using assms(1) True by simp
      then show ?thesis using idx bad_letter by (auto split: sum.splits)
    next
      assume i: "i = nat k + 2 + 2 * m"
      then have "1 + k + (int j * 2 + 1) = int i" using assms(1) True by simp
      then show ?thesis using idx assms(4) by (auto split: sum.splits)
    qed
  qed
qed

lemma read_ngram_bad_field:
  assumes "0 \<le> k" and "j < length (py_split line)"
    and "py_int dec (py_split line ! j) = Inl ValueError"
    and "j \<le> nat k
         \<or> (\<exists>M. py_int dec (py_split line ! nat k) = Inr M \<and> j \<le> nat k + 2 * nat M)"
  shows "\<exists>e. read_ngram dec k line = Inl e"
proof -
  define info where "info = py_split line"
  have toks: "\<forall>t \<in> set info. token t" unfolding info_def by (rule py_split_tokens)
  have j: "j < length info" and bad: "py_int dec (info ! j) = Inl ValueError"
    using assms(2,3) by (simp_all add: info_def)
  have sl: "py_slice info 0 k = take (nat k) info" using assms(1) by (rule py_slice_take)
  have sp: "py_split (join_space (take (nat k) info)) = take (nat k) info"
    using toks by (intro py_split_join_space) (auto dest: in_set_takeD)
  consider (ngram) "j < nat k" | (count) "j = nat k"
    | (pair) M where "nat k < j" "py_int dec (info ! nat k) = Inr M" "j \<le> nat k + 2 * nat M"
    using assms(4) unfolding info_def [symmetric] by force
  then show ?thesis
  proof cases
    case ngram
    then have "info ! j \<in> set (take (nat k) info)"
      using j by (auto simp: in_set_conv_nth intro!: exI [of _ j])
    then have "\<exists>e. chars_from_decimal dec (take (nat k) info) = Inl e"
      using bad by (rule chars_from_decimal_bad)
    then show ?thesis
      unfolding read_ngram_def Let_def info_def [symmetric] sl
      by (auto simp: string_from_decimal_def sp)
  next
    case count
    have "py_index info (int (nat k)) = Inr (info ! nat k)"
      using j count by (intro py_index_nat) simp
    then have "py_index info k = Inr (info ! j)" using assms(1) count by simp
    then show ?thesis
      unfolding read_ngram_def Let_def info_def [symmetric]
      using bad by (auto split: sum.splits)
  next
    case pair
    have "py_index info (int (nat k)) = Inr (info ! nat k)"
      using j pair(1) by (intro py_index_nat) simp
    then have idx: "py_index info k = Inr (info ! nat k)" using assms(1) by simp
    define m where "m = (j - nat k - 1) div 2"
    have "m < nat M" unfolding m_def using pair(1,3) by arith
    then have ms: "m \<in> set [0 ..< nat M]" by simp
    have "j = nat k + 1 + 2 * m \<or> j = nat k + 2 + 2 * m"
      unfolding m_def using pair(1) by arith
    from read_letters_bad_field [OF assms(1) toks j bad ms this, of "[]"]
    show ?thesis
      unfolding read_ngram_def Let_def info_def [symmetric]
      using idx pair(2) by (auto split: sum.splits)
  qed
qed

lemma read_ngrams_bad_line:
  "i < n \<Longrightarrow> i < length (file_lines fl) \<Longrightarrow>
   \<exists>e. read_ngram dec k (file_lines fl ! i) = Inl e \<Longrightarrow>
   \<exists>e. read_ngrams dec k n fl acc = Inl e"
proof (induction n arbitrary: fl acc i)
  case 0
  then show ?case by simp
next
  case (Suc n)
  have "fl \<noteq> []" using Suc.prems(2) by (auto simp: file_lines_def)
  then have ls: "file_lines fl = fst (readline fl) # file_lines (snd (readline fl))"
    by (rule file_lines_readline)
  show ?case
  proof (cases "read_ngram dec k (fst (readline fl))")
    case (Inl e)
    then show ?thesis by simp
  next
    case (Inr entry)
    then have "i \<noteq> 0" using Suc.prems(3) ls by (cases i) auto
    then obtain i' where i': "i = Suc i'" by (cases i) auto
    have "\<exists>e. read_ngrams dec k n (snd (readline fl)) (AList.update (fst entry) (snd entry) acc) = Inl e"
      using Suc.prems ls i' by (intro Suc.IH [of i']) simp_all
    then show ?thesis using Inr by simp
  qed
qed

lemma py_index_take: "i < r \<Longrightarrow> py_index (take r xs) (int i) = py_index xs (int i)"
  by (simp add: py_index_def Let_def)

lemma read_letters_take:
  assumes "0 \<le> k" and "\<forall>j \<in> set js. nat k + 2 + 2 * j < r"
  shows "read_letters dec (take r info) k js acc = read_letters dec info k js acc"
  using assms(2)
proof (induction js arbitrary: acc)
  case Nil
  then show ?case by simp
next
  case (Cons j js)
  have a: "1 + k + int j * 2 = int (nat k + 1 + 2 * j)" using assms(1) by simp
  have b: "1 + k + (int j * 2 + 1) = int (nat k + 2 + 2 * j)" using assms(1) by simp
  have r1: "nat k + 1 + 2 * j < r" and r2: "nat k + 2 + 2 * j < r" using Cons.prems by simp_all
  have ih: "read_letters dec (take r info) k js acc' = read_letters dec info k js acc'" for acc'
    using Cons.prems by (intro Cons.IH) simp
  show ?case
    unfolding read_letters.simps a b py_index_take [OF r1] py_index_take [OF r2] ih ..
qed

lemma read_ngram_fields_read:
  assumes "0 \<le> k"
    and "fields_read dec k (py_split line) = fields_read dec k (py_split line')"
  shows "read_ngram dec k line = read_ngram dec k line'"
proof -
  define G where "G info =
     (case string_from_decimal dec (join_space (py_slice info 0 k)) of
           Inl e \<Rightarrow> Inl e
         | Inr ngram_value \<Rightarrow>
             (case py_index info k of
                Inl e \<Rightarrow> Inl e
              | Inr count_field \<Rightarrow>
                  (case py_int dec count_field of
                     Inl e \<Rightarrow> Inl e
                   | Inr next_letter_count \<Rightarrow>
                       (case read_letters dec info k [0 ..< nat next_letter_count] [] of
                          Inl e \<Rightarrow> Inl e
                        | Inr next_letters \<Rightarrow> Inr (ngram_value, next_letters)))))" for info
  have rd: "read_ngram dec k l = G (py_split l)" for l
    unfolding read_ngram_def G_def Let_def by (rule refl)
  have fr: "G (fields_read dec k info) = G info" for info
  proof (cases "nat k < length info")
    case False
    then show ?thesis by (simp add: fields_read_def)
  next
    case True
    have kk: "k = int (nat k)" using assms(1) by simp
    have idx: "py_index info k = Inr (info ! nat k)"
      using py_index_nat [OF True] kk by simp
    have tk: "nat k < r \<Longrightarrow> py_index (take r info) k = Inr (info ! nat k)" for r
      using py_index_take [of "nat k" r info] idx kk by simp
    have sl: "nat k < r \<Longrightarrow> py_slice (take r info) 0 k = py_slice info 0 k" for r
      using assms(1) by (simp add: py_slice_take min_def)
    show ?thesis
    proof (cases "py_int dec (info ! nat k)")
      case (Inl e)
      then have f: "fields_read dec k info = take (nat k + 1) info"
        using True by (simp add: fields_read_def)
      show ?thesis unfolding f G_def using Inl idx tk [of "nat k + 1"] sl [of "nat k + 1"]
        by (simp split: sum.splits)
    next
      case (Inr M)
      then have f: "fields_read dec k info = take (nat k + 1 + 2 * nat M) info"
        using True by (simp add: fields_read_def)
      have "read_letters dec (take (nat k + 1 + 2 * nat M) info) k [0 ..< nat M] []
              = read_letters dec info k [0 ..< nat M] []"
        using assms(1) by (intro read_letters_take) auto
      then show ?thesis unfolding f G_def
        using Inr idx tk [of "nat k + 1 + 2 * nat M"] sl [of "nat k + 1 + 2 * nat M"]
        by (simp split: sum.splits)
    qed
  qed
  show ?thesis unfolding rd using fr [of "py_split line"] fr [of "py_split line'"] assms(2)
    by simp
qed

lemma file_lines_empty: "file_lines s = [] \<longleftrightarrow> s = []"
proof
  assume "file_lines s = []"
  then show "s = []" using file_lines_readline [of s] by (cases "s = []") auto
next
  assume "s = []"
  then show "file_lines s = []" by (simp add: file_lines_def)
qed

lemma read_ngrams_fields_read:
  assumes "0 \<le> k"
  shows "map (\<lambda>line. fields_read dec k (py_split line)) (take n (file_lines fl))
           = map (\<lambda>line. fields_read dec k (py_split line)) (take n (file_lines fl')) \<Longrightarrow>
         read_ngrams dec k n fl acc = read_ngrams dec k n fl' acc"
proof (induction n arbitrary: fl fl' acc)
  case 0
  then show ?case by simp
next
  case (Suc n)
  show ?case
  proof (cases "fl = []")
    case True
    then have "take (Suc n) (file_lines fl') = []" using Suc.prems by (simp add: file_lines_def)
    then have "fl' = []" using file_lines_empty [of fl'] by simp
    then show ?thesis using True by simp
  next
    case False
    then have ls: "file_lines fl = fst (readline fl) # file_lines (snd (readline fl))"
      by (rule file_lines_readline)
    have "fl' \<noteq> []"
    proof
      assume "fl' = []"
      then have "take (Suc n) (file_lines fl) = []" using Suc.prems by (simp add: file_lines_def)
      then show False using ls by simp
    qed
    then have ls': "file_lines fl' = fst (readline fl') # file_lines (snd (readline fl'))"
      by (rule file_lines_readline)
    from Suc.prems have
      h: "fields_read dec k (py_split (fst (readline fl)))
            = fields_read dec k (py_split (fst (readline fl')))"
      and t: "map (\<lambda>line. fields_read dec k (py_split line)) (take n (file_lines (snd (readline fl))))
            = map (\<lambda>line. fields_read dec k (py_split line)) (take n (file_lines (snd (readline fl'))))"
      unfolding ls ls' by simp_all
    have one: "read_ngram dec k (fst (readline fl)) = read_ngram dec k (fst (readline fl'))"
      using assms h by (rule read_ngram_fields_read)
    show ?thesis
      unfolding read_ngrams.simps one using Suc.IH [OF t] by (simp split: sum.splits)
  qed
qed

lemma same_read_fields:
  assumes "0 \<le> k"
    and "ints_of dec (py_split (fst (readline (universal_newlines content)))) = Inr [k, N]"
    and "py_split (fst (readline (universal_newlines content')))
           = py_split (fst (readline (universal_newlines content)))"
    and "map (\<lambda>line. fields_read dec k (py_split line))
             (take (nat N) (file_lines (snd (readline (universal_newlines content')))))
         = map (\<lambda>line. fields_read dec k (py_split line))
             (take (nat N) (file_lines (snd (readline (universal_newlines content)))))"
  shows "read_ngram_counts_from_file dec content' = read_ngram_counts_from_file dec content"
  unfolding read_ngram_counts_from_file_def Let_def assms(3) assms(2)
  using read_ngrams_fields_read [OF assms(1,4), of "[]"] by simp

lemma chars_from_decimal_error:
  "chars_from_decimal dec ts = Inl e \<Longrightarrow> e = ValueError \<or> e = OverflowError"
  by (induction ts arbitrary: e)
     (auto simp: py_int_def py_chr_def split: sum.splits list.splits if_splits option.splits)

lemma py_index_error: "py_index xs i = Inl e \<Longrightarrow> e = IndexError"
  by (simp add: py_index_def Let_def split: if_splits)

lemma py_int_error: "py_int dec s = Inl e \<Longrightarrow> e = ValueError"
  by (auto simp: py_int_def split: sum.splits list.splits if_splits option.splits)

lemma read_letters_error:
  "read_letters dec info k js acc = Inl e \<Longrightarrow> e \<in> {ValueError, IndexError, OverflowError}"
proof (induction js arbitrary: acc)
  case Nil
  then show ?case by simp
next
  case (Cons j js)
  then show ?case
    by (auto simp: string_from_decimal_def split: sum.splits
             dest: py_index_error py_int_error chars_from_decimal_error)
qed

lemma read_ngram_error:
  "read_ngram dec k line = Inl e \<Longrightarrow> e \<in> {ValueError, IndexError, OverflowError}"
  by (auto simp: read_ngram_def Let_def string_from_decimal_def split: sum.splits
           dest: py_index_error py_int_error chars_from_decimal_error read_letters_error)

lemma read_ngrams_error:
  "read_ngrams dec k n fl acc = Inl e \<Longrightarrow> e \<in> {ValueError, IndexError, OverflowError}"
proof (induction n arbitrary: fl acc)
  case 0
  then show ?case by simp
next
  case (Suc n)
  then show ?case by (auto split: sum.splits dest: read_ngram_error)
qed

lemma read_error:
  "read_ngram_counts_from_file dec content = Inl e \<Longrightarrow>
   e \<in> {ValueError, IndexError, OverflowError}"
  by (auto simp: read_ngram_counts_from_file_def Let_def split: sum.splits list.splits
           dest: ints_of_error read_ngrams_error)

lemma read_ngrams_end:
  "length (file_lines fl) < n \<Longrightarrow>
   \<forall>line \<in> set (file_lines fl). \<exists>entry. read_ngram dec k line = Inr entry \<Longrightarrow>
   read_ngrams dec k n fl acc = Inl IndexError"
proof (induction n arbitrary: fl acc)
  case 0
  then show ?case by simp
next
  case (Suc n)
  show ?case
  proof (cases "fl = []")
    case True
    then have "read_ngram dec k (fst (readline fl)) = Inl IndexError"
      by (intro read_ngram_no_fields) (simp add: py_split_def)
    then show ?thesis by simp
  next
    case False
    then have ls: "file_lines fl = fst (readline fl) # file_lines (snd (readline fl))"
      by (rule file_lines_readline)
    then obtain entry where e: "read_ngram dec k (fst (readline fl)) = Inr entry"
      using Suc.prems(2) by auto
    have "read_ngrams dec k n (snd (readline fl)) (AList.update (fst entry) (snd entry) acc)
            = Inl IndexError"
      using Suc.prems ls by (intro Suc.IH) simp_all
    then show ?thesis using e by simp
  qed
qed

lemma fields_read_position:
  assumes "t \<in> set (fields_read dec k info)"
  shows "\<exists>j < length info. info ! j = t
           \<and> (j \<le> nat k \<or> (\<exists>M. py_int dec (info ! nat k) = Inr M \<and> j \<le> nat k + 2 * nat M))"
proof (cases "nat k < length info")
  case False
  then have "t \<in> set info" using assms by (simp add: fields_read_def)
  then obtain j where "j < length info" and "info ! j = t" by (auto simp: in_set_conv_nth)
  then show ?thesis using False by (intro exI [of _ j]) simp
next
  case True
  show ?thesis
  proof (cases "py_int dec (info ! nat k)")
    case (Inl e)
    then have "t \<in> set (take (nat k + 1) info)" using assms True by (simp add: fields_read_def)
    then obtain j where "j < length info" and "j < nat k + 1" and "info ! j = t"
      by (auto simp: in_set_conv_nth)
    then show ?thesis by (intro exI [of _ j]) simp
  next
    case (Inr M)
    then have "t \<in> set (take (nat k + 1 + 2 * nat M) info)"
      using assms True by (simp add: fields_read_def)
    then obtain j where "j < length info" and "j < nat k + 1 + 2 * nat M" and "info ! j = t"
      by (auto simp: in_set_conv_nth)
    then show ?thesis using Inr by (intro exI [of _ j]) simp
  qed
qed

lemma declared_more_than_present_end:
  assumes "ints_of dec (py_split (fst (readline (universal_newlines content)))) = Inr [k, N]"
    and "int (length (file_lines (snd (readline (universal_newlines content))))) < N"
    and "\<forall>line \<in> set (file_lines (snd (readline (universal_newlines content)))).
           \<exists>entry. read_ngram dec k line = Inr entry"
  shows "read_ngram_counts_from_file dec content = Inl IndexError"
proof -
  have "length (file_lines (snd (readline (universal_newlines content)))) < nat N"
    using assms(2) by simp
  from read_ngrams_end [OF this assms(3), of "[]"] show ?thesis
    using assms(1) by (simp add: read_ngram_counts_from_file_def)
qed

lemma failure_kinds:
  "\<exists>e. read_ngram_counts_from_file dec content = Inl e \<Longrightarrow>
   read_ngram_counts_from_file dec content \<in> {Inl ValueError, Inl IndexError, Inl OverflowError}"
  using read_error [of dec content] by auto

text \<open>
  Claim C7, as the specification states it, fails: the file
  \<^verbatim>\<open>1 1\<close> / \<^verbatim>\<open>97 1 98 1 x\<close> / \<^verbatim>\<open>99 z\<close>,
  whose header declares one n-gram while it holds two data lines, and which holds the
  fields \<^verbatim>\<open>x\<close> and \<^verbatim>\<open>z\<close> that are not integers, is read without an
  error: the second data line and the fifth field of the first are never read.
\<close>

theorem surplus_line_counterexample:
  "length (file_lines [57, 55, 32, 49, 32, 57, 56, 32, 49, 32, 120, 10,
                       57, 57, 32, 122, 10]) = 2
   \<and> py_split [57, 55, 32, 49, 32, 57, 56, 32, 49, 32, 120, 10] = [[57, 55], [49], [57, 56], [49], [120]]
   \<and> py_int ascii_dec [120] = Inl ValueError
   \<and> read_ngram_counts_from_file ascii_dec
        [49, 32, 49, 10,
         57, 55, 32, 49, 32, 57, 56, 32, 49, 32, 120, 10,
         57, 57, 32, 122, 10]
      = Inr ([([97], [([98], 1)])], 1)"
proof (intro conjI)
  show "length (file_lines [57, 55, 32, 49, 32, 57, 56, 32, 49, 32, 120, 10,
                            57, 57, 32, 122, 10]) = 2"
    by (simp add: file_lines_def)
  show "py_split [57, 55, 32, 49, 32, 57, 56, 32, 49, 32, 120, 10]
          = [[57, 55], [49], [57, 56], [49], [120]]"
    by (simp add: py_split_def py_isspace_def)
  show "py_int ascii_dec [120] = Inl ValueError"
    by (simp add: py_int_def ascii_dec_def)
  have line: "read_ngram ascii_dec 1 [57, 55, 32, 49, 32, 57, 56, 32, 49, 32, 120, 10]
                = Inr ([97], [([98], 1)])"
    by (simp add: read_ngram_def py_split_def py_isspace_def py_slice_def clamp_index_def
          string_from_decimal_def py_int_def ascii_dec_def py_chr_def py_index_def Let_def)
  have header: "ints_of ascii_dec (py_split [49, 32, 49, 10]) = Inr [1, 1]"
    by (simp add: py_split_def py_isspace_def py_int_def ascii_dec_def)
  show "read_ngram_counts_from_file ascii_dec
        [49, 32, 49, 10,
         57, 55, 32, 49, 32, 57, 56, 32, 49, 32, 120, 10,
         57, 57, 32, 122, 10]
      = Inr ([([97], [([98], 1)])], 1)"
    by (simp add: read_ngram_counts_from_file_def header line)
qed

text \<open>
  Claim C7, amended. The reader checks nothing itself; it fails when something it reads
  makes \<open>int\<close>, \<open>chr\<close>, an index or the unpacking of the header fail, and every
  failure is a ValueError, an IndexError or an OverflowError. It fails
  \<^item> with ValueError, when the first line is not exactly two fields that \<open>int\<close> accepts;
  \<^item> when the header declares more n-grams than there are data lines (so a header that
    declares 2 n-grams over a single data line fails, and no shortened table is returned),
    with IndexError when every line present can be read;
  \<^item> when, for an n-gram length \<open>k \<ge> 0\<close>, \<open>int\<close> does not accept one of the fields
    read from one of the declared lines: one of its first \<open>k + 1\<close> fields, or one of the
    \<open>2 * M\<close> fields after them, \<open>M\<close> being the number in field \<open>k\<close>.

  It does not fail because of lines after the declared ones or of fields after those read:
  for \<open>k \<ge> 0\<close>, a file with the same header fields whose first \<open>N\<close> data lines (\<open>N\<close>
  the declared number) hold the same fields read gives the same result, the same table or
  the same exception.
\<close>

theorem malformed_model_fails:
  assumes "fl = universal_newlines content"
    and "header = py_split (fst (readline fl))"
    and "data_lines = file_lines (snd (readline fl))"
  shows "((\<forall>k N. ints_of dec header \<noteq> Inr [k, N])
            \<longrightarrow> read_ngram_counts_from_file dec content = Inl ValueError)
         \<and> (\<forall>k N. ints_of dec header = Inr [k, N] \<longrightarrow>
               (int (length data_lines) < N \<longrightarrow>
                  read_ngram_counts_from_file dec content
                    \<in> {Inl ValueError, Inl IndexError, Inl OverflowError}
                  \<and> ((\<forall>line \<in> set data_lines. \<exists>entry. read_ngram dec k line = Inr entry)
                       \<longrightarrow> read_ngram_counts_from_file dec content = Inl IndexError))
               \<and> (0 \<le> k \<longrightarrow>
                    (\<forall>i t. int i < N \<and> i < length data_lines
                         \<and> t \<in> set (fields_read dec k (py_split (data_lines ! i)))
                         \<and> py_int dec t = Inl ValueError
                       \<longrightarrow> read_ngram_counts_from_file dec content
                             \<in> {Inl ValueError, Inl IndexError, Inl OverflowError})
                    \<and> (\<forall>content'.
                          py_split (fst (readline (universal_newlines content'))) = header
                          \<and> map (\<lambda>line. fields_read dec k (py_split line))
                                (take (nat N)
                                   (file_lines (snd (readline (universal_newlines content')))))
                              = map (\<lambda>line. fields_read dec k (py_split line))
                                    (take (nat N) data_lines)
                        \<longrightarrow> read_ngram_counts_from_file dec content'
                              = read_ngram_counts_from_file dec content)))
         \<and> (\<forall>e. read_ngram_counts_from_file dec content = Inl e
                 \<longrightarrow> e \<in> {ValueError, IndexError, OverflowError})"
proof (intro conjI allI impI)
  assume "\<forall>k N. ints_of dec header \<noteq> Inr [k, N]"
  then show "read_ngram_counts_from_file dec content = Inl ValueError"
    unfolding assms by (rule header_not_two_fields)
next
  fix k N
  assume "ints_of dec header = Inr [k, N]" and "int (length data_lines) < N"
  then have "\<exists>e. read_ngram_counts_from_file dec content = Inl e"
    unfolding assms by (rule declared_more_than_present)
  then show "read_ngram_counts_from_file dec content
               \<in> {Inl ValueError, Inl IndexError, Inl OverflowError}"
    by (rule failure_kinds)
next
  fix k N
  assume "ints_of dec header = Inr [k, N]" and "int (length data_lines) < N"
    and "\<forall>line \<in> set data_lines. \<exists>entry. read_ngram dec k line = Inr entry"
  then show "read_ngram_counts_from_file dec content = Inl IndexError"
    unfolding assms by (rule declared_more_than_present_end)
next
  fix k N i t
  assume h: "ints_of dec header = Inr [k, N]" and k: "0 \<le> k"
    and f: "int i < N \<and> i < length data_lines
              \<and> t \<in> set (fields_read dec k (py_split (data_lines ! i)))
              \<and> py_int dec t = Inl ValueError"
  from f have "t \<in> set (fields_read dec k (py_split (data_lines ! i)))" by blast
  from fields_read_position [OF this] obtain j where
    j: "j < length (py_split (data_lines ! i))"
    and tj: "py_split (data_lines ! i) ! j = t"
    and pos: "j \<le> nat k
              \<or> (\<exists>M. py_int dec (py_split (data_lines ! i) ! nat k) = Inr M
                     \<and> j \<le> nat k + 2 * nat M)"
    by blast
  have bad: "py_int dec (py_split (data_lines ! i) ! j) = Inl ValueError" using f tj by simp
  have "\<exists>e. read_ngram dec k (data_lines ! i) = Inl e"
    using k j bad pos by (rule read_ngram_bad_field)
  moreover have "int i < N" using f by blast
  then have "i < nat N" by linarith
  moreover have "i < length data_lines" using f by blast
  ultimately have "\<exists>e. read_ngrams dec k (nat N) (snd (readline fl)) [] = Inl e"
    unfolding assms(3) by (intro read_ngrams_bad_line [of i])
  then have "\<exists>e. read_ngram_counts_from_file dec content = Inl e"
    using h unfolding assms(1,2) by (auto simp: read_ngram_counts_from_file_def)
  then show "read_ngram_counts_from_file dec content
               \<in> {Inl ValueError, Inl IndexError, Inl OverflowError}"
    by (rule failure_kinds)
next
  fix k N content'
  assume h: "ints_of dec header = Inr [k, N]" and k: "0 \<le> k"
    and s: "py_split (fst (readline (universal_newlines content'))) = header
            \<and> map (\<lambda>line. fields_read dec k (py_split line))
                  (take (nat N) (file_lines (snd (readline (universal_newlines content')))))
                = map (\<lambda>line. fields_read dec k (py_split line)) (take (nat N) data_lines)"
  show "read_ngram_counts_from_file dec content' = read_ngram_counts_from_file dec content"
    using k h s unfolding assms by (intro same_read_fields) blast+
next
  fix e
  assume "read_ngram_counts_from_file dec content = Inl e"
  then show "e \<in> {ValueError, IndexError, OverflowError}" by (rule read_error)
qed

theorem malformed_model_fails_witness:
  "read_ngram_counts_from_file ascii_dec [49, 10] = Inl ValueError
   \<and> read_ngram_counts_from_file ascii_dec
        [49, 32, 50, 10, 57, 55, 32, 49, 32, 57, 56, 32, 49, 10] = Inl IndexError
   \<and> read_ngram_counts_from_file ascii_dec
        [49, 32, 49, 10, 57, 55, 32, 49, 32, 120, 32, 49, 10]
       \<in> {Inl ValueError, Inl IndexError, Inl OverflowError}
   \<and> read_ngram_counts_from_file ascii_dec
        [49, 32, 49, 10, 57, 55, 32, 49, 32, 57, 56, 32, 49, 32, 120, 10, 57, 57, 32, 122, 10]
       = read_ngram_counts_from_file ascii_dec
           [49, 32, 49, 10, 57, 55, 32, 49, 32, 57, 56, 32, 49, 10]"
proof (intro conjI)
  have "\<forall>k N. ints_of ascii_dec (py_split (fst (readline (universal_newlines [49, 10]))))
                 \<noteq> Inr [k, N]"
    by (simp add: py_split_def py_isspace_def py_int_def ascii_dec_def)
  with malformed_model_fails [OF refl refl refl, of ascii_dec "[49, 10]"]
  show "read_ngram_counts_from_file ascii_dec [49, 10] = Inl ValueError" by blast
next
  have header: "ints_of ascii_dec (py_split (fst (readline (universal_newlines
                  [49, 32, 50, 10, 57, 55, 32, 49, 32, 57, 56, 32, 49, 10])))) = Inr [1, 2]"
    by (simp add: py_split_def py_isspace_def py_int_def ascii_dec_def)
  have present: "int (length (file_lines (snd (readline (universal_newlines
                  [49, 32, 50, 10, 57, 55, 32, 49, 32, 57, 56, 32, 49, 10]))))) < 2"
    by (simp add: file_lines_def)
  have decode: "\<forall>line \<in> set (file_lines (snd (readline (universal_newlines
                  [49, 32, 50, 10, 57, 55, 32, 49, 32, 57, 56, 32, 49, 10])))).
                  \<exists>entry. read_ngram ascii_dec 1 line = Inr entry"
    by (simp add: file_lines_def read_ngram_def py_split_def py_isspace_def py_slice_def
          clamp_index_def string_from_decimal_def py_int_def ascii_dec_def py_chr_def
          py_index_def Let_def)
  from malformed_model_fails [OF refl refl refl, of ascii_dec
         "[49, 32, 50, 10, 57, 55, 32, 49, 32, 57, 56, 32, 49, 10]"]
    header present decode
  show "read_ngram_counts_from_file ascii_dec
          [49, 32, 50, 10, 57, 55, 32, 49, 32, 57, 56, 32, 49, 10] = Inl IndexError"
    by blast
next
  have header: "ints_of ascii_dec (py_split (fst (readline (universal_newlines
                  [49, 32, 49, 10, 57, 55, 32, 49, 32, 120, 32, 49, 10])))) = Inr [1, 1]"
    by (simp add: py_split_def py_isspace_def py_int_def ascii_dec_def)
  have field: "int 0 < 1 \<and> 0 < length (file_lines (snd (readline (universal_newlines
                  [49, 32, 49, 10, 57, 55, 32, 49, 32, 120, 32, 49, 10]))))
               \<and> [120] \<in> set (fields_read ascii_dec 1 (py_split (file_lines (snd (readline
                     (universal_newlines
                        [49, 32, 49, 10, 57, 55, 32, 49, 32, 120, 32, 49, 10]))) ! 0)))
               \<and> py_int ascii_dec [120] = Inl ValueError"
    by (simp add: file_lines_def fields_read_def py_split_def py_isspace_def py_int_def
          ascii_dec_def)
  from malformed_model_fails [OF refl refl refl, of ascii_dec
         "[49, 32, 49, 10, 57, 55, 32, 49, 32, 120, 32, 49, 10]"]
    header field
  show "read_ngram_counts_from_file ascii_dec
          [49, 32, 49, 10, 57, 55, 32, 49, 32, 120, 32, 49, 10]
         \<in> {Inl ValueError, Inl IndexError, Inl OverflowError}"
    by (metis order_refl zero_le_one)
next
  have header: "ints_of ascii_dec (py_split (fst (readline (universal_newlines
                  [49, 32, 49, 10, 57, 55, 32, 49, 32, 57, 56, 32, 49, 10])))) = Inr [1, 1]"
    by (simp add: py_split_def py_isspace_def py_int_def ascii_dec_def)
  have same: "py_split (fst (readline (universal_newlines
                 [49, 32, 49, 10, 57, 55, 32, 49, 32, 57, 56, 32, 49, 32, 120, 10,
                  57, 57, 32, 122, 10])))
               = py_split (fst (readline (universal_newlines
                   [49, 32, 49, 10, 57, 55, 32, 49, 32, 57, 56, 32, 49, 10])))
             \<and> map (\<lambda>line. fields_read ascii_dec 1 (py_split line))
                   (take (nat 1) (file_lines (snd (readline (universal_newlines
                      [49, 32, 49, 10, 57, 55, 32, 49, 32, 57, 56, 32, 49, 32, 120, 10,
                       57, 57, 32, 122, 10])))))
               = map (\<lambda>line. fields_read ascii_dec 1 (py_split line))
                   (take (nat 1) (file_lines (snd (readline (universal_newlines
                      [49, 32, 49, 10, 57, 55, 32, 49, 32, 57, 56, 32, 49, 10])))))"
    by (simp add: file_lines_def fields_read_def py_split_def py_isspace_def py_int_def
          ascii_dec_def)
  from malformed_model_fails [OF refl refl refl, of ascii_dec
         "[49, 32, 49, 10, 57, 55, 32, 49, 32, 57, 56, 32, 49, 10]"]
    header same
  show "read_ngram_counts_from_file ascii_dec
          [49, 32, 49, 10, 57, 55, 32, 49, 32, 57, 56, 32, 49, 32, 120, 10, 57, 57, 32, 122, 10]
         = read_ngram_counts_from_file ascii_dec
             [49, 32, 49, 10, 57, 55, 32, 49, 32, 57, 56, 32, 49, 10]"
    by (metis zero_le_one)
qed

end
